theory Spec2Isabelle
  imports Complex_Main "HOL-Library.Word" "HOL-Library.Signed_Division"
begin

unbundle bit_operations_syntax

section \<open>Data of the CloudXR client\<close>

text \<open>
  The embedding covers \<open>HelloArApplication::CloudXRClient\<close> of
  \<open>hello_ar_application.cc\<close>: the ring of pose matrices (\<open>pose_matrix_\<close>,
  \<open>current_idx_\<close>), the latched frame (\<open>framesLatched_\<close>, \<open>latched_\<close>) and the
  stream resolution (\<open>stream_width_\<close>, \<open>stream_height_\<close>). The members keep their
  names without the trailing underscore.

  A C \<open>float\<close> is modelled by the real number it stands for. Each \<open>float\<close>
  operation of the code (the subtraction in \<open>DetermineOffset\<close>, the conversion and the
  product in \<open>SetStreamRes\<close>) and the literal \<open>0.0001f\<close> round the exact result to
  the nearest single-precision number, ties to even (\<open>round_f32\<close>). Infinities, NaN and
  overflow beyond the largest \<open>float\<close> are outside the model. The indices are C
  \<open>int\<close>s that stay between \<open>0\<close> and \<open>kQueueLen\<close>, so they are modelled by \<open>int\<close>,
  with C's truncating \<open>%\<close> as \<open>smod\<close>.

  \<open>kQueueLen\<close> is \<open>BackgroundRenderer::kQueueLen\<close>, declared in a header that is
  not part of the sources; every operation takes it as its first argument \<open>K\<close>.

  Every operation is one step on the client state: \<open>state_mutex_\<close> and the threads
  that call the operations are not modelled.
\<close>

datatype vec4 = Vec4 real real real real

text \<open>\<open>v[j]\<close> for \<open>j\<close> in \<open>0..3\<close>; the code never indexes further.\<close>

fun vec4_at :: "vec4 \<Rightarrow> nat \<Rightarrow> real" where
  "vec4_at (Vec4 a b c d) j =
     (if j = 0 then a else if j = 1 then b else if j = 2 then c else d)"

text \<open>\<open>glm::mat4\<close>: four columns, \<open>pose_mat[c][r]\<close> is column \<open>c\<close>, row \<open>r\<close>.\<close>

datatype mat4 = Mat4 vec4 vec4 vec4 vec4

fun mat4_at :: "mat4 \<Rightarrow> nat \<Rightarrow> nat \<Rightarrow> real" where
  "mat4_at (Mat4 c0 c1 c2 c3) c r =
     vec4_at (if c = 0 then c0 else if c = 1 then c1 else if c = 2 then c2 else c3) r"

text \<open>\<open>cxrMatrix34\<close>: \<open>float m[3][4]\<close>, three rows of four components.\<close>

datatype cxrMatrix34 = CxrMatrix34 vec4 vec4 vec4

fun m :: "cxrMatrix34 \<Rightarrow> nat \<Rightarrow> nat \<Rightarrow> real" where
  "m (CxrMatrix34 r0 r1 r2) i j =
     vec4_at (if i = 0 then r0 else if i = 1 then r1 else r2) j"

definition zero34 :: cxrMatrix34 where
  "zero34 = CxrMatrix34 (Vec4 0 0 0 0) (Vec4 0 0 0 0) (Vec4 0 0 0 0)"

text \<open>Of \<open>cxrFramesLatched\<close> the client reads only \<open>poseMatrix\<close>.\<close>

record cxrFramesLatched =
  poseMatrix :: cxrMatrix34

datatype cxrError =
    cxrError_Success
  | cxrError_Receiver_Not_Running
  | cxrError_Frame_Not_Ready
  | cxrError_Other nat

text \<open>
  The members of \<open>CloudXRClient\<close> that the modelled operations read or write.
  \<open>cloudxr_receiver\<close> is a handle, \<open>None\<close> for \<open>nullptr\<close>; \<open>res_factor\<close> is
  \<open>launch_options_.res_factor_\<close>.
\<close>

record client =
  cloudxr_receiver :: "nat option"
  res_factor :: real
  stream_width :: "32 word"
  stream_height :: "32 word"
  framesLatched :: cxrFramesLatched
  latched :: bool
  pose_matrix :: "cxrMatrix34 list"
  current_idx :: int

text \<open>The member initialisers of the class, and \<open>res_factor_(0.75f)\<close> of \<open>ARLaunchOptions\<close>.\<close>

definition init_client :: "int \<Rightarrow> client" where
  "init_client K =
     \<lparr> cloudxr_receiver = None,
       res_factor = 3 / 4,
       stream_width = 720,
       stream_height = 1440,
       framesLatched = \<lparr> poseMatrix = zero34 \<rparr>,
       latched = False,
       pose_matrix = replicate (nat K) zero34,
       current_idx = 0 \<rparr>"

section \<open>Single-precision arithmetic\<close>

text \<open>
  Rounding to the nearest integer, ties to the even one; the exponent of the binade of
  a number, not below \<open>-126\<close> (subnormal numbers share the exponent \<open>-126\<close>); the
  spacing of the single-precision numbers there (24 significant bits); and the
  rounding of a real number to the nearest single-precision number, ties to even.
\<close>

definition round_half_even :: "real \<Rightarrow> int" where
  "round_half_even x =
     (let n = \<lfloor>x\<rfloor>; r = x - of_int n
      in if r < 1 / 2 then n else if 1 / 2 < r then n + 1 else if even n then n else n + 1)"

definition f32_exponent :: "real \<Rightarrow> int" where
  "f32_exponent x = max (- 126) \<lfloor>log 2 \<bar>x\<bar>\<rfloor>"

definition f32_ulp :: "real \<Rightarrow> real" where
  "f32_ulp x = 2 powr of_int (f32_exponent x - 23)"

definition round_f32 :: "real \<Rightarrow> real" where
  "round_f32 x = sgn x * (of_int (round_half_even (\<bar>x\<bar> / f32_ulp x)) * f32_ulp x)"

text \<open>
  The literal \<open>0.0001f\<close>, the \<open>float\<close> subtraction, \<open>fabsf\<close>, and the test
  \<open>fabsf(a - b) >= 0.0001f\<close> of \<open>DetermineOffset\<close>. A difference too large for a
  \<open>float\<close> is infinite in C and a large number here; the test is true of both.
\<close>

definition f32_eps :: real where
  "f32_eps = round_f32 (1 / 10000)"

definition fsub :: "real \<Rightarrow> real \<Rightarrow> real" where
  "fsub a b = round_f32 (a - b)"

definition fabsf :: "real \<Rightarrow> real" where
  "fabsf x = \<bar>x\<bar>"

definition component_differs :: "real \<Rightarrow> real \<Rightarrow> bool" where
  "component_differs a b \<longleftrightarrow> fabsf (fsub a b) \<ge> f32_eps"

section \<open>The pose ring\<close>

text \<open>
  The twelve assignments of \<open>SetPoseMatrix\<close>: \<open>pose_matrix.m[i][j] = pose_mat[j][i]\<close>
  for \<open>i < 3\<close>, \<open>j < 4\<close>. Every component of the slot is assigned.
\<close>

definition to_matrix34 :: "mat4 \<Rightarrow> cxrMatrix34" where
  "to_matrix34 pose_mat =
     CxrMatrix34
       (Vec4 (mat4_at pose_mat 0 0) (mat4_at pose_mat 1 0) (mat4_at pose_mat 2 0) (mat4_at pose_mat 3 0))
       (Vec4 (mat4_at pose_mat 0 1) (mat4_at pose_mat 1 1) (mat4_at pose_mat 2 1) (mat4_at pose_mat 3 1))
       (Vec4 (mat4_at pose_mat 0 2) (mat4_at pose_mat 1 2) (mat4_at pose_mat 2 2) (mat4_at pose_mat 3 2))"

definition SetPoseMatrix :: "int \<Rightarrow> client \<Rightarrow> mat4 \<Rightarrow> client" where
  "SetPoseMatrix K c pose_mat =
     c \<lparr> pose_matrix := (pose_matrix c) [nat (current_idx c) := to_matrix34 pose_mat],
         current_idx := (current_idx c + 1) smod K \<rparr>"

text \<open>A sequence of frames, each pushing its pose.\<close>

fun pushes :: "int \<Rightarrow> client \<Rightarrow> mat4 list \<Rightarrow> client" where
  "pushes K c [] = c"
| "pushes K c (p # ps) = pushes K (SetPoseMatrix K c p) ps"

text \<open>
  The inner loops of \<open>DetermineOffset\<close>: \<open>notMatch\<close> counts the components \<open>(i, j)\<close>,
  \<open>i < 3\<close>, \<open>j < 4\<close>, with \<open>fabsf(a.m[i][j] - b.m[i][j]) >= 0.0001f\<close>.
\<close>

definition notMatch :: "cxrMatrix34 \<Rightarrow> cxrMatrix34 \<Rightarrow> nat" where
  "notMatch a b =
     length (filter (\<lambda>(i, j). component_differs (m a i j) (m b i j))
               (List.product [0 ..< 3] [0 ..< 4]))"

text \<open>The index expression of \<open>DetermineOffset\<close>.\<close>

definition offset_idx :: "int \<Rightarrow> int \<Rightarrow> int \<Rightarrow> int" where
  "offset_idx K cur offset =
     (if cur < offset then K + (cur - offset) smod K else (cur - offset) smod K)"

text \<open>The outer loop, from \<open>offset\<close> on; \<open>return 0\<close> when it runs out.\<close>

function DetermineOffset_from :: "int \<Rightarrow> client \<Rightarrow> int \<Rightarrow> int" where
  "DetermineOffset_from K c offset =
     (if offset < K then
        (let idx = offset_idx K (current_idx c) offset;
             slot = pose_matrix c ! nat idx
         in if 0 = notMatch slot (poseMatrix (framesLatched c)) then offset
            else DetermineOffset_from K c (offset + 1))
      else 0)"
  by pat_completeness auto
termination
  by (relation "measure (\<lambda>(K, c, offset). nat (K - offset))") auto

definition DetermineOffset :: "int \<Rightarrow> client \<Rightarrow> int" where
  "DetermineOffset K c = DetermineOffset_from K c 0"

text \<open>
  \<open>GetTrackingState\<close>: the index of the read, and the state it fills in.
  \<open>cxrMatrixToVecQuat\<close> is a function of the CloudXR SDK, taken as a parameter.
\<close>

definition latest_idx :: "int \<Rightarrow> client \<Rightarrow> int" where
  "latest_idx K c =
     (if current_idx c = 0 then K - 1 else (current_idx c - 1) smod K)"

record 'pq hmd_pose =
  poseIsValid :: bool
  deviceIsConnected :: bool
  trackingResult_Running_OK :: bool
  position_rotation :: 'pq

definition GetTrackingState :: "(cxrMatrix34 \<Rightarrow> 'pq) \<Rightarrow> int \<Rightarrow> client \<Rightarrow> 'pq hmd_pose" where
  "GetTrackingState cxrMatrixToVecQuat K c =
     \<lparr> poseIsValid = True,
       deviceIsConnected = True,
       trackingResult_Running_OK = True,
       position_rotation = cxrMatrixToVecQuat (pose_matrix c ! nat (latest_idx K c)) \<rparr>"

text \<open>
  The ring is in order when the array has \<open>kQueueLen\<close> slots and the cursor is an index
  of it. Outside of that the C++ code reads or writes out of bounds; all results below
  are about rings in order, and \<open>ring_ok_init\<close>, \<open>ring_ok_SetPoseMatrix\<close> and the
  lemmas after them show that the client never leaves them.
\<close>

definition ring_ok :: "int \<Rightarrow> client \<Rightarrow> bool" where
  "ring_ok K c \<longleftrightarrow>
     0 < K \<and> length (pose_matrix c) = nat K \<and> 0 \<le> current_idx c \<and> current_idx c < K"

text \<open>
  Two matrices match when \<open>0==notMatch\<close>, the test that makes \<open>DetermineOffset\<close>
  return; \<open>slot_at\<close> is the slot that the loop reads at \<open>offset\<close>.
\<close>

definition pose_match :: "cxrMatrix34 \<Rightarrow> cxrMatrix34 \<Rightarrow> bool" where
  "pose_match a b \<longleftrightarrow> 0 = notMatch a b"

definition slot_at :: "int \<Rightarrow> client \<Rightarrow> int \<Rightarrow> cxrMatrix34" where
  "slot_at K c offset = pose_matrix c ! nat (offset_idx K (current_idx c) offset)"

definition match_at :: "int \<Rightarrow> client \<Rightarrow> int \<Rightarrow> bool" where
  "match_at K c offset \<longleftrightarrow> pose_match (slot_at K c offset) (poseMatrix (framesLatched c))"

section \<open>The scan as the specification words it\<close>

text \<open>
  The specification describes \<open>findOffset\<close> as a scan "from newest to oldest" that
  returns the distance to the first matching sample, "0 (newest)" by default. This is
  that description, written down to be compared with \<open>DetermineOffset\<close>: distance \<open>d\<close>
  is the sample written \<open>d\<close> pushes before the newest one, in slot
  \<open>(current_idx - 1 - d) mod kQueueLen\<close>.
\<close>

function findOffset_spec_from :: "int \<Rightarrow> client \<Rightarrow> int \<Rightarrow> int" where
  "findOffset_spec_from K c d =
     (if d < K then
        (if pose_match (pose_matrix c ! nat ((current_idx c - 1 - d) mod K))
              (poseMatrix (framesLatched c))
         then d
         else findOffset_spec_from K c (d + 1))
      else 0)"
  by pat_completeness auto
termination
  by (relation "measure (\<lambda>(K, c, d). nat (K - d))") auto

definition findOffset_spec :: "int \<Rightarrow> client \<Rightarrow> int" where
  "findOffset_spec K c = findOffset_spec_from K c 0"

section \<open>Latching and releasing a frame\<close>

text \<open>
  \<open>cxrLatchFrame\<close> and \<open>cxrReleaseFrame\<close> belong to the CloudXR SDK. They are
  parameters here: each takes the state \<open>'w\<close> of the SDK, the receiver handle and the
  frame structure it is given a pointer to, and returns the new frame structure and the
  new SDK state (\<open>cxrLatchFrame\<close> also its status). A call that is not made leaves the
  SDK state as it was.
\<close>

type_synonym 'w latch_fn =
  "'w \<Rightarrow> nat option \<Rightarrow> cxrFramesLatched \<Rightarrow> cxrError \<times> cxrFramesLatched \<times> 'w"

type_synonym 'w release_fn =
  "'w \<Rightarrow> nat option \<Rightarrow> cxrFramesLatched \<Rightarrow> cxrFramesLatched \<times> 'w"

definition IsRunning :: "client \<Rightarrow> bool" where
  "IsRunning c \<longleftrightarrow> cloudxr_receiver c \<noteq> None"

definition Latch :: "'w latch_fn \<Rightarrow> client \<Rightarrow> 'w \<Rightarrow> cxrError \<times> client \<times> 'w" where
  "Latch cxrLatchFrame c w =
     (if latched c then (cxrError_Success, c, w)
      else if \<not> IsRunning c then (cxrError_Receiver_Not_Running, c, w)
      else
        (case cxrLatchFrame w (cloudxr_receiver c) (framesLatched c) of
           (status, frames, w') \<Rightarrow>
             if status \<noteq> cxrError_Success
             then (status, c \<lparr> framesLatched := frames \<rparr>, w')
             else (cxrError_Success, c \<lparr> framesLatched := frames, latched := True \<rparr>, w')))"

definition Release :: "'w release_fn \<Rightarrow> client \<Rightarrow> 'w \<Rightarrow> client \<times> 'w" where
  "Release cxrReleaseFrame c w =
     (if \<not> latched c then (c, w)
      else
        (case cxrReleaseFrame w (cloudxr_receiver c) (framesLatched c) of
           (frames, w') \<Rightarrow> (c \<lparr> framesLatched := frames, latched := False \<rparr>, w')))"

section \<open>The stream resolution\<close>

text \<open>
  The handler of the \<open>res-factor\<close> option, after \<open>std::stof\<close> has read the number: a
  factor outside \<open>[0.5, 1.0]\<close> is ignored.
\<close>

definition res_factor_handler :: "client \<Rightarrow> real \<Rightarrow> client" where
  "res_factor_handler c factor =
     (if factor \<ge> 1 / 2 \<and> factor \<le> 1 then c \<lparr> res_factor := factor \<rparr> else c)"

definition res_factor_ok :: "client \<Rightarrow> bool" where
  "res_factor_ok c \<longleftrightarrow> 1 / 2 \<le> res_factor c \<and> res_factor c \<le> 1"

text \<open>
  \<open>(float)d\<close> for a \<open>uint32_t\<close>, and the \<open>float\<close> product.
\<close>

definition f32_of_u32 :: "32 word \<Rightarrow> real" where
  "f32_of_u32 d = round_f32 (real (unat d))"

definition fmul :: "real \<Rightarrow> real \<Rightarrow> real" where
  "fmul a b = round_f32 (a * b)"

text \<open>C's \<open>round\<close>: to the nearest integer, halves away from zero.\<close>

definition c_round :: "real \<Rightarrow> int" where
  "c_round x = (if 0 \<le> x then \<lfloor>x + 1 / 2\<rfloor> else \<lceil>x - 1 / 2\<rceil>)"

text \<open>
  The conversion \<open>(uint32_t)\<close> of an integral floating-point value: it is defined in
  C++ for values from \<open>0\<close> to \<open>2^32 - 1\<close> only, and \<open>None\<close> stands for the undefined
  behaviour outside.
\<close>

definition to_uint32 :: "int \<Rightarrow> 32 word option" where
  "to_uint32 r = (if 0 \<le> r \<and> r < 2 ^ 32 then Some (word_of_int r) else None)"

text \<open>\<open>((uint32_t)round((float)d * res_factor_)) & ~1\<close>.\<close>

definition scaled_even :: "real \<Rightarrow> 32 word \<Rightarrow> 32 word option" where
  "scaled_even factor d =
     map_option (\<lambda>x. x AND NOT 1) (to_uint32 (c_round (fmul (f32_of_u32 d) factor)))"

definition SetStreamRes :: "client \<Rightarrow> 32 word \<Rightarrow> 32 word \<Rightarrow> 32 word \<Rightarrow> client option" where
  "SetStreamRes c w h orientation =
     (let (w, h) = (if w > h \<and> (orientation = 0 \<or> orientation = 2) then (h, w) else (w, h))
      in case scaled_even (res_factor c) w of
           None \<Rightarrow> None
         | Some width \<Rightarrow>
             (case scaled_even (res_factor c) h of
                None \<Rightarrow> None
              | Some height \<Rightarrow> Some (c \<lparr> stream_width := width, stream_height := height \<rparr>)))"

section \<open>Concrete inputs\<close>

text \<open>The rigid transform with no rotation and the translation \<open>(t, 0, 0)\<close>.\<close>

definition shift_x :: "real \<Rightarrow> mat4" where
  "shift_x t = Mat4 (Vec4 1 0 0 0) (Vec4 0 1 0 0) (Vec4 0 0 1 0) (Vec4 t 0 0 1)"

text \<open>A matrix whose sixteen components differ, column by column.\<close>

definition mat4_numbered :: mat4 where
  "mat4_numbered = Mat4 (Vec4 1 2 3 4) (Vec4 5 6 7 8) (Vec4 9 10 11 12) (Vec4 13 14 15 16)"

text \<open>The frame that \<open>cxrLatchFrame\<close> delivers carries the pose it was rendered for.\<close>

definition with_target :: "client \<Rightarrow> cxrMatrix34 \<Rightarrow> client" where
  "with_target c target = c \<lparr> framesLatched := \<lparr> poseMatrix = target \<rparr> \<rparr>"

text \<open>
  Rings of four slots: after one push, with the latched frame rendered for that pose;
  after four pushes (full); after five pushes, with the latched frame rendered for the
  newest pose; full, with a latched frame whose pose is in no slot.
\<close>

definition ring_one_push :: client where
  "ring_one_push = with_target (pushes 4 (init_client 4) [shift_x 1]) (to_matrix34 (shift_x 1))"

definition ring_full :: client where
  "ring_full = pushes 4 (init_client 4) [shift_x 1, shift_x 2, shift_x 3, shift_x 4]"

definition five_poses :: "mat4 list" where
  "five_poses = [shift_x 1, shift_x 2, shift_x 3, shift_x 4, shift_x 5]"

definition ring_five_pushes :: client where
  "ring_five_pushes = with_target (pushes 4 (init_client 4) five_poses) (to_matrix34 (shift_x 5))"

definition ring_no_match :: client where
  "ring_no_match = with_target ring_full (to_matrix34 (shift_x 9))"

text \<open>
  One push of the identity, and a latched pose that differs from it in one component:
  by the largest \<open>float\<close> below \<open>0.0001f\<close>, and by exactly \<open>0.0001f\<close>.
\<close>

definition ring_below_eps :: client where
  "ring_below_eps =
     with_target (pushes 4 (init_client 4) [shift_x 0]) (to_matrix34 (shift_x (13743894 / 2 ^ 37)))"

definition ring_eps_target :: client where
  "ring_eps_target =
     with_target (pushes 4 (init_client 4) [shift_x 0]) (to_matrix34 (shift_x (13743895 / 2 ^ 37)))"

text \<open>
  An SDK whose state counts the calls made to it: \<open>cxrLatchFrame\<close> delivering a frame,
  \<open>cxrLatchFrame\<close> with no frame ready, and \<open>cxrReleaseFrame\<close>. A connected client has
  a receiver handle.
\<close>

definition sdk_latch_frame :: "nat latch_fn" where
  "sdk_latch_frame w receiver frames =
     (cxrError_Success, \<lparr> poseMatrix = to_matrix34 (shift_x 2) \<rparr>, Suc w)"

definition sdk_latch_not_ready :: "nat latch_fn" where
  "sdk_latch_not_ready w receiver frames = (cxrError_Frame_Not_Ready, frames, Suc w)"

definition sdk_release_frame :: "nat release_fn" where
  "sdk_release_frame w receiver frames = (frames, Suc w)"

definition connected_client :: client where
  "connected_client = (init_client 4) \<lparr> cloudxr_receiver := Some 1 \<rparr>"

definition latched_client :: client where
  "latched_client = connected_client \<lparr> latched := True \<rparr>"

text \<open>
  The client started with the option \<open>-rf 0.7\<close>: \<open>std::stof\<close> reads the \<open>float\<close>
  nearest to \<open>0.7\<close>, which is \<open>11744051 / 2^24\<close>.
\<close>

definition client_rf_07 :: client where
  "client_rf_07 = res_factor_handler (init_client 4) (11744051 / 2 ^ 24)"

section \<open>Basic facts\<close>

subsection \<open>Rounding to single precision\<close>

lemma rhe_of_int [simp]: "round_half_even (of_int n) = n"
  by (simp add: round_half_even_def)

lemma rhe_0 [simp]: "round_half_even 0 = 0"
  by (simp add: round_half_even_def)

lemma rhe_floor_le: "\<lfloor>x\<rfloor> \<le> round_half_even x"
  by (simp add: round_half_even_def Let_def)

lemma rhe_le_floor: "round_half_even x \<le> \<lfloor>x\<rfloor> + 1"
  by (simp add: round_half_even_def Let_def)

lemma rhe_mono: "x \<le> y \<Longrightarrow> round_half_even x \<le> round_half_even y"
proof -
  assume xy: "x \<le> y"
  then have "\<lfloor>x\<rfloor> \<le> \<lfloor>y\<rfloor>" by (rule floor_mono)
  then consider "\<lfloor>x\<rfloor> = \<lfloor>y\<rfloor>" | "\<lfloor>x\<rfloor> + 1 \<le> \<lfloor>y\<rfloor>" by linarith
  then show ?thesis
  proof cases
    case 1
    then show ?thesis using xy by (auto simp: round_half_even_def Let_def)
  next
    case 2
    then show ?thesis using rhe_le_floor [of x] rhe_floor_le [of y] by linarith
  qed
qed

lemma rhe_nonneg: "0 \<le> x \<Longrightarrow> 0 \<le> round_half_even x"
  using rhe_mono [of 0 x] rhe_of_int [of 0] by simp

lemma rhe_ge_odd:
  assumes "odd n"
  shows "n \<le> round_half_even x \<longleftrightarrow> of_int n - 1 / 2 < x"
proof
  assume lt: "of_int n - 1 / 2 < x"
  show "n \<le> round_half_even x"
  proof (cases "of_int n \<le> x")
    case True
    then have "n \<le> \<lfloor>x\<rfloor>" by (simp add: le_floor_iff)
    then show ?thesis using rhe_floor_le [of x] by linarith
  next
    case False
    then have "\<lfloor>x\<rfloor> = n - 1" using lt by (intro floor_unique) auto
    then show ?thesis using lt by (simp add: round_half_even_def Let_def)
  qed
next
  assume ge: "n \<le> round_half_even x"
  show "of_int n - 1 / 2 < x"
  proof (rule ccontr)
    assume "\<not> of_int n - 1 / 2 < x"
    then have le: "x \<le> of_int n - 1 / 2" by simp
    then have fl: "\<lfloor>x\<rfloor> \<le> n - 1" by (simp add: floor_le_iff) linarith
    show False
    proof (cases "\<lfloor>x\<rfloor> = n - 1")
      case True
      then have "even \<lfloor>x\<rfloor>" using assms by simp
      moreover have "x - of_int \<lfloor>x\<rfloor> \<le> 1 / 2" using le True by simp
      ultimately have "round_half_even x = n - 1"
        using True by (auto simp: round_half_even_def Let_def)
      then show False using ge by simp
    next
      case False
      then have "\<lfloor>x\<rfloor> + 1 \<le> n - 1" using fl by linarith
      then show False using rhe_le_floor [of x] ge by linarith
    qed
  qed
qed

lemma f32_exponent_abs [simp]: "f32_exponent \<bar>x\<bar> = f32_exponent x"
  by (simp add: f32_exponent_def)

lemma f32_ulp_abs [simp]: "f32_ulp \<bar>x\<bar> = f32_ulp x"
  by (simp add: f32_ulp_def)

lemma f32_ulp_pos: "0 < f32_ulp x"
  by (simp add: f32_ulp_def)

lemma f32_exponent_eqI:
  assumes "2 powr of_int e \<le> x" "x < 2 powr of_int (e + 1)" "- 126 \<le> e"
  shows "f32_exponent x = e"
proof -
  have pos: "0 < x" using assms(1) by (smt (verit) powr_gt_zero)
  have "\<lfloor>log 2 x\<rfloor> = e"
    using assms pos by (subst floor_log_eq_powr_iff) (simp_all add: add.commute)
  then show ?thesis using assms(3) pos by (simp add: f32_exponent_def)
qed

lemma f32_exponent_upper:
  assumes "0 < x"
  shows "x < 2 powr of_int (f32_exponent x + 1)"
proof -
  have "x < 2 powr (of_int \<lfloor>log 2 x\<rfloor> + 1)"
    using assms floor_log_eq_powr_iff [of x 2 "\<lfloor>log 2 x\<rfloor>"] by simp
  also have "\<dots> \<le> 2 powr of_int (f32_exponent x + 1)"
    using assms by (simp add: f32_exponent_def)
  finally show ?thesis .
qed

lemma f32_exponent_lower:
  assumes "0 < x" "- 126 < f32_exponent x"
  shows "2 powr of_int (f32_exponent x) \<le> x"
proof -
  have "f32_exponent x = \<lfloor>log 2 x\<rfloor>"
    using assms by (auto simp: f32_exponent_def max_def split: if_splits)
  then show ?thesis
    using assms floor_log_eq_powr_iff [of x 2 "\<lfloor>log 2 x\<rfloor>"] by simp
qed

lemma f32_exponent_mono:
  assumes "0 < x" "x \<le> y"
  shows "f32_exponent x \<le> f32_exponent y"
proof -
  have "log 2 x \<le> log 2 y" using assms by simp
  then have "\<lfloor>log 2 x\<rfloor> \<le> \<lfloor>log 2 y\<rfloor>" by (rule floor_mono)
  then have "max (- 126) \<lfloor>log 2 x\<rfloor> \<le> max (- 126) \<lfloor>log 2 y\<rfloor>"
    by (intro max.mono) simp_all
  moreover have "\<bar>x\<bar> = x" "\<bar>y\<bar> = y" using assms by simp_all
  ultimately show ?thesis by (simp only: f32_exponent_def)
qed

lemma abs_round_f32:
  "\<bar>round_f32 x\<bar> = of_int (round_half_even (\<bar>x\<bar> / f32_ulp x)) * f32_ulp x"
proof -
  have "0 \<le> round_half_even (\<bar>x\<bar> / f32_ulp x)"
    using f32_ulp_pos [of x] by (intro rhe_nonneg) simp
  then show ?thesis
    using f32_ulp_pos [of x]
    by (cases "x = 0") (simp_all add: round_f32_def abs_mult abs_sgn_eq)
qed

lemma round_f32_nonneg: "0 \<le> x \<Longrightarrow> 0 \<le> round_f32 x"
  using f32_ulp_pos [of x] rhe_nonneg [of "\<bar>x\<bar> / f32_ulp x"]
  by (simp add: round_f32_def sgn_if)

lemma round_f32_pos_eq:
  "0 \<le> x \<Longrightarrow> round_f32 x = of_int (round_half_even (x / f32_ulp x)) * f32_ulp x"
  using abs_round_f32 [of x] round_f32_nonneg [of x] by simp

lemma round_f32_upper:
  assumes "0 < x"
  shows "round_f32 x \<le> 2 powr of_int (f32_exponent x + 1)"
proof -
  let ?u = "f32_ulp x"
  have u: "0 < ?u" by (rule f32_ulp_pos)
  have eq: "2 powr of_int (f32_exponent x + 1) = 2 ^ 24 * ?u"
  proof -
    have "(2::real) powr of_int (f32_exponent x + 1) = 2 powr (24 + of_int (f32_exponent x - 23))"
      by (simp add: algebra_simps)
    also have "\<dots> = 2 powr 24 * ?u" unfolding f32_ulp_def by (rule powr_add)
    finally show ?thesis by simp
  qed
  have "x < 2 ^ 24 * ?u" using f32_exponent_upper [OF assms] unfolding eq .
  then have "x / ?u \<le> 2 ^ 24"
    using u by (simp add: pos_divide_le_eq)
  then have "round_half_even (x / ?u) \<le> round_half_even (of_int (2 ^ 24))"
    by (intro rhe_mono) simp
  then have "round_half_even (x / ?u) \<le> 2 ^ 24" by (simp only: rhe_of_int)
  then have "(of_int (round_half_even (x / ?u)) :: real) \<le> 2 ^ 24"
    by (metis of_int_le_iff of_int_numeral of_int_power)
  then have "of_int (round_half_even (x / ?u)) * ?u \<le> 2 ^ 24 * ?u"
    using u by (intro mult_right_mono) simp_all
  then show ?thesis using assms by (simp only: eq round_f32_pos_eq [OF less_imp_le [OF assms]])
qed

lemma round_f32_lower:
  assumes "0 < x" "- 126 < f32_exponent x"
  shows "2 powr of_int (f32_exponent x) \<le> round_f32 x"
proof -
  let ?u = "f32_ulp x"
  have u: "0 < ?u" by (rule f32_ulp_pos)
  have eq: "2 powr of_int (f32_exponent x) = 2 ^ 23 * ?u"
  proof -
    have "(2::real) powr of_int (f32_exponent x) = 2 powr (23 + of_int (f32_exponent x - 23))"
      by (simp add: algebra_simps)
    also have "\<dots> = 2 powr 23 * ?u" unfolding f32_ulp_def by (rule powr_add)
    finally show ?thesis by simp
  qed
  have "2 ^ 23 * ?u \<le> x" using f32_exponent_lower [OF assms] unfolding eq .
  then have "2 ^ 23 \<le> x / ?u"
    using u by (simp add: pos_le_divide_eq)
  then have "round_half_even (of_int (2 ^ 23)) \<le> round_half_even (x / ?u)"
    by (intro rhe_mono) simp
  then have "2 ^ 23 \<le> round_half_even (x / ?u)" by (simp only: rhe_of_int)
  then have "(2 ^ 23 :: real) \<le> of_int (round_half_even (x / ?u))"
    by (metis of_int_le_iff of_int_numeral of_int_power)
  then have "2 ^ 23 * ?u \<le> of_int (round_half_even (x / ?u)) * ?u"
    using u by (intro mult_right_mono) simp_all
  then show ?thesis using assms by (simp only: eq round_f32_pos_eq [OF less_imp_le [OF assms(1)]])
qed

lemma round_f32_mono:
  assumes "0 \<le> x" "x \<le> y"
  shows "round_f32 x \<le> round_f32 y"
proof (cases "x = 0")
  case True
  then show ?thesis using assms round_f32_nonneg [of y] by (simp add: round_f32_def)
next
  case False
  then have x: "0 < x" and y: "0 < y" using assms by simp_all
  have e: "f32_exponent x \<le> f32_exponent y" using x assms(2) by (rule f32_exponent_mono)
  show ?thesis
  proof (cases "f32_exponent x = f32_exponent y")
    case True
    then have u: "f32_ulp x = f32_ulp y" by (simp add: f32_ulp_def)
    have "x / f32_ulp y \<le> y / f32_ulp y"
      using assms(2) f32_ulp_pos [of y] by (simp add: divide_right_mono)
    then have "round_half_even (x / f32_ulp y) \<le> round_half_even (y / f32_ulp y)"
      by (rule rhe_mono)
    then have "of_int (round_half_even (x / f32_ulp y)) * f32_ulp y
                 \<le> of_int (round_half_even (y / f32_ulp y)) * f32_ulp y"
      using f32_ulp_pos [of y] by (intro mult_right_mono) simp_all
    then show ?thesis using x y by (simp add: round_f32_pos_eq u)
  next
    case False
    then have lt: "f32_exponent x + 1 \<le> f32_exponent y" using e by simp
    then have "- 126 < f32_exponent y" by (simp add: f32_exponent_def)
    then have "2 powr of_int (f32_exponent y) \<le> round_f32 y"
      using y by (intro round_f32_lower)
    moreover have "round_f32 x \<le> 2 powr of_int (f32_exponent x + 1)"
      using x by (rule round_f32_upper)
    moreover have "(2::real) powr of_int (f32_exponent x + 1) \<le> 2 powr of_int (f32_exponent y)"
      using lt by simp
    ultimately show ?thesis by linarith
  qed
qed

lemma round_f32_binade:
  assumes "2 powr of_int e \<le> x" "x < 2 powr of_int (e + 1)" "- 126 \<le> e"
  shows "round_f32 x = of_int (round_half_even (x / 2 powr of_int (e - 23))) * 2 powr of_int (e - 23)"
proof -
  have pos: "0 < x" using assms(1) by (smt (verit) powr_gt_zero)
  have "f32_exponent x = e" using assms by (rule f32_exponent_eqI)
  then show ?thesis using pos by (simp add: round_f32_pos_eq f32_ulp_def)
qed

lemma f32_eps_value: "f32_eps = 13743895 / 2 ^ 37"
proof -
  have "round_f32 (1 / 10000)
          = of_int (round_half_even ((1 / 10000) / 2 powr of_int (- 14 - 23))) * 2 powr of_int (- 14 - 23)"
    by (rule round_f32_binade) (simp_all add: powr_neg_numeral)
  moreover have "round_half_even ((1 / 10000) / 2 powr of_int (- 14 - 23)) = 13743895"
    by (simp add: powr_neg_numeral round_half_even_def Let_def)
  ultimately show ?thesis by (simp add: f32_eps_def powr_neg_numeral)
qed

lemma abs_round_f32_ge_eps:
  "\<bar>round_f32 d\<bar> \<ge> 13743895 / 2 ^ 37 \<longleftrightarrow> \<bar>d\<bar> > 27487789 / 2 ^ 38"
proof (cases "d = 0")
  case True
  then show ?thesis by (simp add: round_f32_def)
next
  case False
  define a where "a = \<bar>d\<bar>"
  have a: "0 < a" using False by (simp add: a_def)
  have abs: "\<bar>round_f32 d\<bar> = round_f32 a"
    using a by (simp add: abs_round_f32 round_f32_pos_eq a_def)
  define e where "e = f32_exponent a"
  consider "e < - 14" | "e = - 14" | "- 14 < e" by linarith
  then have "round_f32 a \<ge> 13743895 / 2 ^ 37 \<longleftrightarrow> a > 27487789 / 2 ^ 38"
  proof cases
    case 1
    then have p: "(2::real) powr of_int (e + 1) \<le> 2 powr of_int (- 14)" by simp
    have "round_f32 a \<le> 2 powr of_int (e + 1)" unfolding e_def using a by (rule round_f32_upper)
    then have "round_f32 a \<le> 2 powr of_int (- 14)" using p by linarith
    then have r: "round_f32 a < 13743895 / 2 ^ 37" by (simp add: powr_neg_numeral)
    have "a < 2 powr of_int (e + 1)" unfolding e_def using a by (rule f32_exponent_upper)
    then have "a < 2 powr of_int (- 14)" using p by linarith
    then have "a < 27487789 / 2 ^ 38" by (simp add: powr_neg_numeral)
    then show ?thesis using r by simp
  next
    case 2
    then have ex: "f32_exponent a = - 14" by (simp add: e_def)
    have u: "f32_ulp a = 1 / 2 ^ 37" by (simp add: f32_ulp_def ex powr_neg_numeral)
    have "round_f32 a = of_int (round_half_even (a * 2 ^ 37)) / 2 ^ 37"
      using a by (simp add: round_f32_pos_eq u)
    then have "round_f32 a \<ge> 13743895 / 2 ^ 37 \<longleftrightarrow> 13743895 \<le> round_half_even (a * 2 ^ 37)"
      by (simp add: divide_le_cancel)
    also have "\<dots> \<longleftrightarrow> of_int 13743895 - 1 / 2 < a * 2 ^ 37"
      by (rule rhe_ge_odd) simp
    also have "\<dots> \<longleftrightarrow> a > 27487789 / 2 ^ 38" by (simp add: field_simps)
    finally show ?thesis .
  next
    case 3
    then have p: "(2::real) powr of_int (- 13) \<le> 2 powr of_int e" by simp
    have big: "- 126 < f32_exponent a" using 3 by (simp add: e_def)
    have "2 powr of_int e \<le> round_f32 a" unfolding e_def using a big by (rule round_f32_lower)
    then have "2 powr of_int (- 13) \<le> round_f32 a" using p by linarith
    then have r: "round_f32 a \<ge> 13743895 / 2 ^ 37" by (simp add: powr_neg_numeral)
    have "2 powr of_int e \<le> a" unfolding e_def using a big by (rule f32_exponent_lower)
    then have "2 powr of_int (- 13) \<le> a" using p by linarith
    then have "a > 27487789 / 2 ^ 38" by (simp add: powr_neg_numeral)
    then show ?thesis using r by simp
  qed
  then show ?thesis by (simp only: abs a_def)
qed

lemma component_differs_iff [code]:
  "component_differs a b \<longleftrightarrow> \<bar>a - b\<bar> > 27487789 / 2 ^ 38"
  by (simp only: component_differs_def fabsf_def fsub_def f32_eps_value abs_round_f32_ge_eps)

lemma component_differs_refl: "\<not> component_differs a a"
  by (simp add: component_differs_iff)

text \<open>
  A difference of exactly \<open>0.0001f\<close> is a mismatch, and so is \<open>1 / 10000\<close>, which rounds
  to it; the next smaller single-precision difference is a match.
\<close>

lemma component_differs_at_eps:
  "component_differs (13743895 / 2 ^ 37) 0 \<and> component_differs (1 / 10000) 0
   \<and> \<not> component_differs (13743894 / 2 ^ 37) 0"
  by (simp add: component_differs_iff)

subsection \<open>Indices\<close>

lemma smod_nonneg: "0 \<le> a \<Longrightarrow> 0 < K \<Longrightarrow> a smod K = a mod (K :: int)"
  by (simp add: signed_modulo_int_def sgn_if)

lemma smod_small_neg: "- K < a \<Longrightarrow> a < 0 \<Longrightarrow> a smod K = (a :: int)"
  by (simp add: signed_modulo_int_def sgn_if)

lemma mod_shift_neq:
  assumes "0 < t" "t < (K::int)"
  shows "(a + t) mod K \<noteq> a mod K"
proof
  assume "(a + t) mod K = a mod K"
  then have "K dvd (a + t) - a" by (simp only: mod_eq_dvd_iff)
  then have "K dvd t" by simp
  then show False using assms zdvd_not_zless by blast
qed

lemma mod_step: "((a + 1) mod K + b) mod K = (a + (1 + b)) mod (K::int)"
  by (simp add: mod_simps ac_simps)

lemma offset_idx_mod:
  assumes "0 < K" "0 \<le> cur" "cur < K" "0 \<le> d" "d < K"
  shows "offset_idx K cur d = (cur - d) mod K"
proof (cases "cur < d")
  case True
  then have "(cur - d) smod K = cur - d"
    using assms by (intro smod_small_neg) auto
  moreover have "(cur - d) mod K = (cur - d + K) mod K" by simp
  moreover have "(cur - d + K) mod K = cur - d + K"
    using True assms by (intro mod_pos_pos_trivial) auto
  ultimately show ?thesis using True by (simp add: offset_idx_def)
next
  case False
  then show ?thesis using assms by (simp add: offset_idx_def smod_nonneg)
qed

text \<open>The test of the code, component by component.\<close>

lemma pose_match_iff:
  "pose_match a b \<longleftrightarrow> (\<forall>i < 3. \<forall>j < 4. \<not> component_differs (m a i j) (m b i j))"
  by (auto simp: pose_match_def notMatch_def filter_empty_conv eq_commute[of 0])

lemma pose_match_components:
  "pose_match a b \<longleftrightarrow>
     (\<forall>i < 3. \<forall>j < 4. \<not> fabsf (fsub (m a i j) (m b i j)) \<ge> f32_eps)"
  by (simp only: pose_match_iff component_differs_def)

lemma pose_match_refl: "pose_match a a"
  by (simp add: pose_match_iff component_differs_refl)

subsection \<open>The scan\<close>

lemma DetermineOffset_from_unfold:
  "DetermineOffset_from K c d =
     (if d < K then (if match_at K c d then d else DetermineOffset_from K c (d + 1)) else 0)"
  by (subst DetermineOffset_from.simps)
     (simp add: Let_def match_at_def slot_at_def pose_match_def)

lemma DetermineOffset_from_none:
  "(\<And>d. offset \<le> d \<Longrightarrow> d < K \<Longrightarrow> \<not> match_at K c d) \<Longrightarrow> DetermineOffset_from K c offset = 0"
proof (induction K c offset rule: DetermineOffset_from.induct)
  case (1 K c offset)
  show ?case
  proof (cases "offset < K")
    case True
    then have nm: "\<not> match_at K c offset" using "1.prems" by simp
    have "DetermineOffset_from K c (offset + 1) = 0"
      using True nm "1.prems"
      by (intro "1.IH") (auto simp: match_at_def slot_at_def pose_match_def)
    then show ?thesis using True nm by (subst DetermineOffset_from_unfold) simp
  next
    case False
    then show ?thesis by (subst DetermineOffset_from_unfold) simp
  qed
qed

lemma DetermineOffset_from_first:
  "offset \<le> d \<Longrightarrow> d < K \<Longrightarrow> match_at K c d \<Longrightarrow>
   (\<And>e. offset \<le> e \<Longrightarrow> e < d \<Longrightarrow> \<not> match_at K c e) \<Longrightarrow>
   DetermineOffset_from K c offset = d"
proof (induction K c offset rule: DetermineOffset_from.induct)
  case (1 K c offset)
  show ?case
  proof (cases "offset = d")
    case True
    then show ?thesis using "1.prems" by (subst DetermineOffset_from_unfold) simp
  next
    case False
    then have lt: "offset < d" using "1.prems" by simp
    then have nm: "\<not> match_at K c offset" using "1.prems" by simp
    have "DetermineOffset_from K c (offset + 1) = d"
      using lt nm "1.prems"
      by (intro "1.IH") (auto simp: match_at_def slot_at_def pose_match_def)
    then show ?thesis using lt nm "1.prems" by (subst DetermineOffset_from_unfold) simp
  qed
qed

subsection \<open>The ring stays in order\<close>

lemma ring_ok_init: "0 < K \<Longrightarrow> ring_ok K (init_client K)"
  by (simp add: ring_ok_def init_client_def)

lemma ring_ok_SetPoseMatrix: "ring_ok K c \<Longrightarrow> ring_ok K (SetPoseMatrix K c p)"
  by (simp add: ring_ok_def SetPoseMatrix_def smod_nonneg)

lemma ring_ok_Latch: "ring_ok K c \<Longrightarrow> ring_ok K (fst (snd (Latch cxrLatchFrame c w)))"
  by (simp add: Latch_def ring_ok_def split: prod.splits)

lemma ring_ok_Release: "ring_ok K c \<Longrightarrow> ring_ok K (fst (Release cxrReleaseFrame c w))"
  by (simp add: Release_def ring_ok_def split: prod.splits)

lemma ring_ok_SetStreamRes:
  "ring_ok K c \<Longrightarrow> SetStreamRes c w h orientation = Some c' \<Longrightarrow> ring_ok K c'"
  by (auto simp: SetStreamRes_def ring_ok_def split: prod.splits option.splits if_splits)

lemma pushes_append: "pushes K c (ps @ qs) = pushes K (pushes K c ps) qs"
  by (induction ps arbitrary: c) simp_all

lemma ring_ok_pushes: "ring_ok K c \<Longrightarrow> ring_ok K (pushes K c ps)"
  by (induction ps arbitrary: c) (simp_all add: ring_ok_SetPoseMatrix)

lemma current_idx_SetPoseMatrix:
  "ring_ok K c \<Longrightarrow> current_idx (SetPoseMatrix K c p) = (current_idx c + 1) mod K"
  by (simp add: ring_ok_def SetPoseMatrix_def smod_nonneg)

lemma current_idx_pushes:
  "ring_ok K c \<Longrightarrow> current_idx (pushes K c ps) = (current_idx c + int (length ps)) mod K"
proof (induction ps arbitrary: c)
  case Nil
  then show ?case by (simp add: ring_ok_def)
next
  case (Cons p ps)
  have "current_idx (pushes K (SetPoseMatrix K c p) ps)
          = ((current_idx c + 1) mod K + int (length ps)) mod K"
    using Cons.prems by (simp add: Cons.IH ring_ok_SetPoseMatrix current_idx_SetPoseMatrix)
  also have "\<dots> = (current_idx c + (1 + int (length ps))) mod K"
    by (rule mod_step)
  finally show ?case by simp
qed

lemma pushes_other:
  "ring_ok K c \<Longrightarrow> (\<And>j. j < length ps \<Longrightarrow> int i \<noteq> (current_idx c + int j) mod K) \<Longrightarrow>
   pose_matrix (pushes K c ps) ! i = pose_matrix c ! i"
proof (induction ps arbitrary: c)
  case Nil
  then show ?case by simp
next
  case (Cons p ps)
  let ?c = "SetPoseMatrix K c p"
  have ok: "ring_ok K ?c" using Cons.prems(1) by (rule ring_ok_SetPoseMatrix)
  have cur: "current_idx ?c = (current_idx c + 1) mod K"
    using Cons.prems(1) by (rule current_idx_SetPoseMatrix)
  have "pose_matrix (pushes K ?c ps) ! i = pose_matrix ?c ! i"
  proof (rule Cons.IH [OF ok])
    fix j assume "j < length ps"
    then have "int i \<noteq> (current_idx c + int (Suc j)) mod K"
      using Cons.prems(2) [of "Suc j"] by simp
    then show "int i \<noteq> (current_idx ?c + int j) mod K"
      by (simp only: cur mod_step) simp
  qed
  moreover have "int i \<noteq> current_idx c"
    using Cons.prems(2) [of 0] Cons.prems(1) by (simp add: ring_ok_def)
  then have "pose_matrix ?c ! i = pose_matrix c ! i"
    using Cons.prems(1) by (auto simp: SetPoseMatrix_def ring_ok_def)
  ultimately show ?case by simp
qed

lemma pushes_slot:
  "ring_ok K c \<Longrightarrow> length ps \<le> nat K \<Longrightarrow> j < length ps \<Longrightarrow>
   pose_matrix (pushes K c ps) ! nat ((current_idx c + int j) mod K) = to_matrix34 (ps ! j)"
proof (induction ps arbitrary: c j)
  case Nil
  then show ?case by simp
next
  case (Cons p ps)
  let ?c = "SetPoseMatrix K c p"
  have ok: "ring_ok K ?c" using Cons.prems(1) by (rule ring_ok_SetPoseMatrix)
  have cur: "current_idx ?c = (current_idx c + 1) mod K"
    using Cons.prems(1) by (rule current_idx_SetPoseMatrix)
  have K: "0 < K" "0 \<le> current_idx c" "current_idx c < K" "length (pose_matrix c) = nat K"
    using Cons.prems(1) by (simp_all add: ring_ok_def)
  show ?case
  proof (cases j)
    case 0
    have "pose_matrix (pushes K ?c ps) ! nat (current_idx c) = pose_matrix ?c ! nat (current_idx c)"
    proof (rule pushes_other [OF ok])
      fix j' assume j': "j' < length ps"
      have "(current_idx c + (1 + int j')) mod K \<noteq> current_idx c mod K"
        using j' Cons.prems(2) by (intro mod_shift_neq) auto
      then show "int (nat (current_idx c)) \<noteq> (current_idx ?c + int j') mod K"
        using K by (simp only: cur mod_step) simp
    qed
    also have "\<dots> = to_matrix34 p"
      using K by (simp add: SetPoseMatrix_def)
    finally show ?thesis using 0 K by simp
  next
    case (Suc j')
    have "pose_matrix (pushes K ?c ps) ! nat ((current_idx ?c + int j') mod K) = to_matrix34 (ps ! j')"
      using Cons.prems Suc by (intro Cons.IH [OF ok]) auto
    moreover have "(current_idx ?c + int j') mod K = (current_idx c + int j) mod K"
      by (simp only: cur mod_step Suc) simp
    ultimately show ?thesis using Suc by simp
  qed
qed

lemma pushes_frame:
  "cloudxr_receiver (pushes K c ps) = cloudxr_receiver c"
  "res_factor (pushes K c ps) = res_factor c"
  "stream_width (pushes K c ps) = stream_width c"
  "stream_height (pushes K c ps) = stream_height c"
  "framesLatched (pushes K c ps) = framesLatched c"
  "latched (pushes K c ps) = latched c"
  "length (pose_matrix (pushes K c ps)) = length (pose_matrix c)"
  by (induction ps arbitrary: c; simp add: SetPoseMatrix_def)+

lemma latest_idx_SetPoseMatrix:
  assumes "ring_ok K c"
  shows "latest_idx K (SetPoseMatrix K c p) = current_idx c"
proof (cases "current_idx c + 1 = K")
  case True
  then show ?thesis using assms
    by (simp add: latest_idx_def SetPoseMatrix_def ring_ok_def signed_modulo_int_def)
next
  case False
  then have "current_idx c + 1 < K" "0 \<le> current_idx c" using assms by (auto simp: ring_ok_def)
  then show ?thesis
    by (simp add: latest_idx_def SetPoseMatrix_def smod_nonneg)
qed

lemma offset_idx_range:
  assumes "ring_ok K c" "0 \<le> d" "d < K"
  shows "0 \<le> offset_idx K (current_idx c) d \<and> offset_idx K (current_idx c) d < K"
  using assms by (simp add: offset_idx_mod ring_ok_def)

lemma mod_back: "0 \<le> a \<Longrightarrow> a < K \<Longrightarrow> ((a + 1) mod K - 1) mod K = (a::int)"
  by (simp add: mod_simps)

lemma pushes_snoc: "pushes K c (ps @ [p]) = SetPoseMatrix K (pushes K c ps) p"
  by (simp add: pushes_append)

lemma m_to_matrix34: "i < 3 \<Longrightarrow> j < 4 \<Longrightarrow> m (to_matrix34 p) i j = mat4_at p j i"
proof -
  assume "i < 3" "j < 4"
  then have "i = 0 \<or> i = 1 \<or> i = 2" "j = 0 \<or> j = 1 \<or> j = 2 \<or> j = 3" by auto
  then show ?thesis by (cases p) (auto simp: to_matrix34_def)
qed

lemma SetPoseMatrix_slot:
  "ring_ok K c \<Longrightarrow> pose_matrix (SetPoseMatrix K c p) ! nat (current_idx c) = to_matrix34 p"
  by (simp add: SetPoseMatrix_def ring_ok_def)

lemma pushes_full_cursor_slot:
  assumes "ring_ok K c" "length ps = nat K"
  shows "pose_matrix (pushes K c ps) ! nat (current_idx (pushes K c ps)) = to_matrix34 (ps ! 0)"
proof -
  have K: "0 < K" "0 \<le> current_idx c" "current_idx c < K" using assms(1) by (simp_all add: ring_ok_def)
  have "current_idx (pushes K c ps) = (current_idx c + K) mod K"
    using assms K by (simp add: current_idx_pushes)
  then have cur: "current_idx (pushes K c ps) = (current_idx c + int 0) mod K" by simp
  show ?thesis unfolding cur using assms K by (intro pushes_slot) auto
qed

lemma with_target_simps:
  "pose_matrix (with_target c t) = pose_matrix c"
  "current_idx (with_target c t) = current_idx c"
  "poseMatrix (framesLatched (with_target c t)) = t"
  "ring_ok K (with_target c t) = ring_ok K c"
  by (simp_all add: with_target_def ring_ok_def)

lemma DetermineOffset_least:
  assumes "ring_ok K c" "0 \<le> d" "d < K"
    and "pose_match (pose_matrix c ! nat ((current_idx c - d) mod K)) (poseMatrix (framesLatched c))"
    and "\<And>e. 0 \<le> e \<Longrightarrow> e < d \<Longrightarrow>
           \<not> pose_match (pose_matrix c ! nat ((current_idx c - e) mod K)) (poseMatrix (framesLatched c))"
  shows "DetermineOffset K c = d"
proof -
  have K: "0 < K" "0 \<le> current_idx c" "current_idx c < K" using assms(1) by (simp_all add: ring_ok_def)
  have idx: "offset_idx K (current_idx c) e = (current_idx c - e) mod K" if "0 \<le> e" "e < K" for e
    using K that by (intro offset_idx_mod) auto
  have "DetermineOffset_from K c 0 = d"
  proof (rule DetermineOffset_from_first)
    show "0 \<le> d" "d < K" by fact+
    show "match_at K c d"
      using assms(2-4) by (simp add: match_at_def slot_at_def idx)
    show "\<not> match_at K c e" if "0 \<le> e" "e < d" for e
      using assms(5) [OF that] that assms(3) by (simp add: match_at_def slot_at_def idx)
  qed
  then show ?thesis by (simp add: DetermineOffset_def)
qed

lemma ring_ok_full: "ring_ok 4 ring_full"
  by code_simp

lemma ring_index_onto:
  assumes "0 < K" "0 \<le> a" "a < K" "i < nat K"
  shows "\<exists>j < nat K. int i = (a + int j) mod K"
proof -
  let ?j = "nat ((int i - a) mod K)"
  have "?j < nat K" using assms by simp
  moreover have "(a + int ?j) mod K = int i"
    using assms by (simp add: mod_simps)
  ultimately show ?thesis by metis
qed

subsection \<open>Clearing the low bit, rounding and scaling\<close>

lemma and_not_1_eq: "(x :: 32 word) AND NOT 1 = 2 * (x div 2)"
proof -
  have "x - (x AND 1) = x AND NOT (x AND 1)"
    by (rule disjunctive_diff) (simp add: bit_and_iff)
  also have "\<dots> = x AND NOT 1"
    by (rule bit_eqI) (auto simp: bit_simps)
  finally have "x AND NOT 1 = x - (x AND 1)" by simp
  then show ?thesis by (simp only: and_one_eq minus_mod_eq_mult_div)
qed

lemma unat_and_not_1: "unat ((x :: 32 word) AND NOT 1) = 2 * (unat x div 2)"
proof -
  have "unat x < 2 ^ 32"
    using unsigned_less [of x, where 'a = nat] by simp
  then have "unat x div 2 < 2147483648" by simp
  then have "unat (2 * (x div 2)) = unat (2 :: 32 word) * unat (x div 2)"
    by (subst unat_mult_lem [symmetric]) (simp add: unat_div)
  then show ?thesis by (simp only: and_not_1_eq) (simp add: unat_div)
qed

lemma c_round_mono: "x \<le> y \<Longrightarrow> c_round x \<le> c_round y"
  unfolding c_round_def by (auto intro: floor_mono ceiling_mono) linarith+

lemma c_round_of_int [simp]: "c_round (of_int n) = n"
  by (simp add: c_round_def) linarith

lemma round_f32_2_31: "round_f32 (2 ^ 31) = 2 ^ 31"
proof -
  have "round_f32 (2 ^ 31)
          = of_int (round_half_even (2 ^ 31 / 2 powr of_int (31 - 23))) * 2 powr of_int (31 - 23)"
    by (rule round_f32_binade) simp_all
  moreover have "(2 ^ 31 :: real) / 2 powr of_int (31 - 23) = of_int (2 ^ 23)" by simp
  ultimately show ?thesis by (simp only: rhe_of_int) simp
qed

lemma round_f32_nat_nonneg: "0 \<le> round_f32 (real n)"
  by (rule round_f32_nonneg) simp

lemma round_f32_nat_mono: "a \<le> b \<Longrightarrow> round_f32 (real a) \<le> round_f32 (real b)"
  by (rule round_f32_mono) simp_all

lemma f32_of_u32_nonneg: "0 \<le> f32_of_u32 d"
  unfolding f32_of_u32_def by (rule round_f32_nat_nonneg)

text \<open>The value that \<open>round\<close> returns in \<open>SetStreamRes\<close> for the dimension \<open>d\<close>.\<close>

lemma scaled_nonneg:
  assumes "0 \<le> f"
  shows "0 \<le> c_round (fmul (f32_of_u32 d) f)"
proof -
  have "0 \<le> f32_of_u32 d" by (rule f32_of_u32_nonneg)
  then have "0 \<le> fmul (f32_of_u32 d) f"
    unfolding fmul_def using assms by (intro round_f32_nonneg mult_nonneg_nonneg)
  then have "c_round 0 \<le> c_round (fmul (f32_of_u32 d) f)" by (rule c_round_mono)
  then show ?thesis by (simp add: c_round_def)
qed

lemma scaled_mono:
  assumes "0 \<le> f" "a \<le> b"
  shows "c_round (fmul (f32_of_u32 a) f) \<le> c_round (fmul (f32_of_u32 b) f)"
proof -
  have "unat a \<le> unat b" using assms(2) by (simp add: word_le_nat_alt)
  then have ab: "f32_of_u32 a \<le> f32_of_u32 b"
    unfolding f32_of_u32_def by (rule round_f32_nat_mono)
  have a0: "0 \<le> f32_of_u32 a" by (rule f32_of_u32_nonneg)
  have "fmul (f32_of_u32 a) f \<le> fmul (f32_of_u32 b) f"
    unfolding fmul_def using assms(1) ab a0
    by (intro round_f32_mono mult_nonneg_nonneg mult_right_mono)
  then show ?thesis by (rule c_round_mono)
qed

lemma scaled_below_2_31:
  assumes "0 \<le> f" "f \<le> 1" "unat d < 2 ^ 31"
  shows "c_round (fmul (f32_of_u32 d) f) \<le> 2 ^ 31"
proof -
  have d0: "0 \<le> f32_of_u32 d" by (rule f32_of_u32_nonneg)
  define n where "n = unat d"
  have "n < 2 ^ 31" using assms(3) by (simp only: n_def)
  then have "real n < real (2 ^ 31)" by (simp only: of_nat_less_iff)
  then have "real n \<le> 2 ^ 31" by simp
  then have "round_f32 (real n) \<le> round_f32 (2 ^ 31)"
    by (intro round_f32_mono) simp_all
  then have d: "f32_of_u32 d \<le> 2 ^ 31" by (simp only: f32_of_u32_def round_f32_2_31 n_def)
  have "f32_of_u32 d * f \<le> f32_of_u32 d * 1"
    using assms(2) d0 by (intro mult_left_mono)
  then have p: "f32_of_u32 d * f \<le> 2 ^ 31" using d by simp
  have "round_f32 (f32_of_u32 d * f) \<le> round_f32 (2 ^ 31)"
    using p d0 assms(1) by (intro round_f32_mono mult_nonneg_nonneg)
  then have "fmul (f32_of_u32 d) f \<le> of_int (2 ^ 31)"
    by (simp only: fmul_def round_f32_2_31) simp
  then have "c_round (fmul (f32_of_u32 d) f) \<le> c_round (of_int (2 ^ 31))"
    by (rule c_round_mono)
  then show ?thesis by (simp only: c_round_of_int)
qed

lemma scaled_even_Some:
  assumes "scaled_even f d = Some x"
  shows "0 \<le> c_round (fmul (f32_of_u32 d) f) \<and> c_round (fmul (f32_of_u32 d) f) < 2 ^ 32
       \<and> x = word_of_int (c_round (fmul (f32_of_u32 d) f)) AND NOT 1"
  using assms by (auto simp: scaled_even_def to_uint32_def split: if_splits)

lemma unat_scaled_even:
  assumes "scaled_even f d = Some x"
  shows "unat x = 2 * (nat (c_round (fmul (f32_of_u32 d) f)) div 2)"
proof -
  define r where "r = c_round (fmul (f32_of_u32 d) f)"
  have r: "0 \<le> r" "r < 2 ^ 32" and x: "x = word_of_int r AND NOT 1"
    using scaled_even_Some [OF assms] by (simp_all add: r_def)
  have lt: "nat r < 2 ^ 32" using r by (simp add: nat_less_iff)
  have "(word_of_int r :: 32 word) = of_nat (nat r)" using r(1) by (rule word_of_int_nat)
  moreover have "unat (of_nat (nat r) :: 32 word) = nat r"
    using lt by (simp only: unat_of_nat) simp
  ultimately have "unat (word_of_int r :: 32 word) = nat r" by (simp only:)
  then have "unat ((word_of_int r :: 32 word) AND NOT 1) = 2 * (nat r div 2)"
    by (simp only: unat_and_not_1)
  then show ?thesis unfolding x r_def .
qed

lemma scaled_even_mono:
  assumes "0 \<le> f" "a \<le> b" "scaled_even f a = Some x" "scaled_even f b = Some y"
  shows "x \<le> y"
proof -
  have "c_round (fmul (f32_of_u32 a) f) \<le> c_round (fmul (f32_of_u32 b) f)"
    using assms(1,2) by (rule scaled_mono)
  then have "nat (c_round (fmul (f32_of_u32 a) f)) div 2 \<le> nat (c_round (fmul (f32_of_u32 b) f)) div 2"
    by (intro div_le_mono) simp
  then show ?thesis
    unfolding word_le_nat_alt unat_scaled_even [OF assms(3)] unat_scaled_even [OF assms(4)] by simp
qed

lemma even_scaled_even: "scaled_even f d = Some x \<Longrightarrow> even (unat x)"
  by (simp add: unat_scaled_even)

lemma scaled_even_defined:
  assumes "0 \<le> f" "f \<le> 1" "unat d < 2 ^ 31"
  shows "scaled_even f d \<noteq> None"
proof -
  have "c_round (fmul (f32_of_u32 d) f) \<le> 2 ^ 31" using assms by (rule scaled_below_2_31)
  then have "c_round (fmul (f32_of_u32 d) f) < 2 ^ 32" by simp
  moreover have "0 \<le> c_round (fmul (f32_of_u32 d) f)" using assms(1) by (rule scaled_nonneg)
  ultimately show ?thesis by (simp add: scaled_even_def to_uint32_def)
qed

text \<open>
  With the factor \<open>1.0\<close> the largest \<open>uint32_t\<close> dimension becomes the \<open>float\<close> \<open>2^32\<close>,
  which has no \<open>uint32_t\<close> value.
\<close>

lemma scaled_even_undefined: "scaled_even 1 4294967295 = None"
proof -
  have "unat (4294967295 :: 32 word) = 4294967295" by simp
  then have u: "real (unat (4294967295 :: 32 word)) = 4294967295" by (simp only:)
  have "round_f32 4294967295
      = of_int (round_half_even (4294967295 / 2 powr of_int (31 - 23))) * 2 powr of_int (31 - 23)"
    by (rule round_f32_binade) simp_all
  moreover have "round_half_even (4294967295 / 2 powr of_int (31 - 23)) = 16777216"
    by (simp add: round_half_even_def Let_def)
  ultimately have a: "round_f32 4294967295 = 2 ^ 32" by simp
  have "round_f32 (2 ^ 32)
      = of_int (round_half_even (2 ^ 32 / 2 powr of_int (32 - 23))) * 2 powr of_int (32 - 23)"
    by (rule round_f32_binade) simp_all
  moreover have "(2 ^ 32 :: real) / 2 powr of_int (32 - 23) = of_int (2 ^ 23)" by simp
  ultimately have b: "round_f32 (2 ^ 32) = 2 ^ 32" by (simp only: rhe_of_int) simp
  have "fmul (f32_of_u32 4294967295) 1 = of_int (2 ^ 32)"
    by (simp only: fmul_def f32_of_u32_def u a mult_1_right b) simp
  then have "c_round (fmul (f32_of_u32 4294967295) 1) = 2 ^ 32" by (simp only: c_round_of_int)
  then show ?thesis by (simp add: scaled_even_def to_uint32_def)
qed

lemma SetStreamRes_Some:
  assumes "SetStreamRes c w h orientation = Some c'"
  shows "scaled_even (res_factor c)
           (if w > h \<and> (orientation = 0 \<or> orientation = 2) then h else w) = Some (stream_width c')
       \<and> scaled_even (res_factor c)
           (if w > h \<and> (orientation = 0 \<or> orientation = 2) then w else h) = Some (stream_height c')
       \<and> res_factor c' = res_factor c"
  using assms by (auto simp: SetStreamRes_def split: option.splits if_splits)

lemma SetStreamRes_defined:
  assumes "scaled_even (res_factor c) w \<noteq> None" "scaled_even (res_factor c) h \<noteq> None"
  shows "SetStreamRes c w h orientation \<noteq> None"
  using assms by (auto simp: SetStreamRes_def split: option.splits)

section \<open>Claims about the pose ring\<close>

subsection \<open>C3: what a push writes\<close>

text \<open>
  C3. In a ring in order, \<open>SetPoseMatrix\<close> stores the new pose in the slot at the write
  cursor: component \<open>m[i][j]\<close> of the slot becomes \<open>pose_mat[j][i]\<close> for every row
  \<open>i < 3\<close> and column \<open>j < 4\<close>, which is \<open>to_matrix34\<close> of the pose. It then moves the
  cursor on by one modulo \<open>kQueueLen\<close>, so that the cursor ends one past the slot just
  written. That slot held the oldest sample: in a ring that has taken \<open>kQueueLen\<close>
  pushes \<open>ps\<close>, the slot at the cursor holds the first of them.
\<close>

theorem SetPoseMatrix_overwrites_oldest:
  assumes "ring_ok K c"
  shows "(\<forall>i < 3. \<forall>j < 4.
            m (pose_matrix (SetPoseMatrix K c p) ! nat (current_idx c)) i j = mat4_at p j i)
       \<and> pose_matrix (SetPoseMatrix K c p) ! nat (current_idx c) = to_matrix34 p
       \<and> current_idx (SetPoseMatrix K c p) = (current_idx c + 1) mod K
       \<and> (current_idx (SetPoseMatrix K c p) - 1) mod K = current_idx c
       \<and> (ring_ok K c0 \<and> length ps = nat K \<and> c = pushes K c0 ps \<longrightarrow>
            (\<forall>i < 3. \<forall>j < 4. m (pose_matrix c ! nat (current_idx c)) i j = mat4_at (ps ! 0) j i))"
proof -
  have K: "0 \<le> current_idx c" "current_idx c < K" using assms by (simp_all add: ring_ok_def)
  have slot: "pose_matrix (SetPoseMatrix K c p) ! nat (current_idx c) = to_matrix34 p"
    using assms by (rule SetPoseMatrix_slot)
  have comps: "\<forall>i < 3. \<forall>j < 4.
      m (pose_matrix (SetPoseMatrix K c p) ! nat (current_idx c)) i j = mat4_at p j i"
    by (simp add: slot m_to_matrix34)
  have cur: "current_idx (SetPoseMatrix K c p) = (current_idx c + 1) mod K"
    using assms by (rule current_idx_SetPoseMatrix)
  have before: "(current_idx (SetPoseMatrix K c p) - 1) mod K = current_idx c"
    using K by (simp add: cur mod_back)
  have oldest: "\<forall>i < 3. \<forall>j < 4. m (pose_matrix c ! nat (current_idx c)) i j = mat4_at (ps ! 0) j i"
    if "ring_ok K c0" "length ps = nat K" "c = pushes K c0 ps"
    using that by (simp add: pushes_full_cursor_slot m_to_matrix34)
  show ?thesis using comps slot cur before oldest by blast
qed

text \<open>
  A full ring of four slots takes a matrix with sixteen different components: the slot
  at the cursor, which held the first push, receives the upper three rows, and the
  cursor moves from \<open>0\<close> to \<open>1\<close>.
\<close>

theorem SetPoseMatrix_overwrites_oldest_witness:
  "ring_ok 4 ring_full
   \<and> current_idx ring_full = 0
   \<and> pose_matrix ring_full ! 0 = CxrMatrix34 (Vec4 1 0 0 1) (Vec4 0 1 0 0) (Vec4 0 0 1 0)
   \<and> m (pose_matrix ring_full ! 0) 0 3 = mat4_at (shift_x 1) 3 0
   \<and> pose_matrix (SetPoseMatrix 4 ring_full mat4_numbered) ! 0
       = CxrMatrix34 (Vec4 1 5 9 13) (Vec4 2 6 10 14) (Vec4 3 7 11 15)
   \<and> m (pose_matrix (SetPoseMatrix 4 ring_full mat4_numbered) ! 0) 1 2 = 10
   \<and> current_idx (SetPoseMatrix 4 ring_full mat4_numbered) = 1"
proof -
  have ok: "ring_ok 4 ring_full" by code_simp
  have ok0: "ring_ok 4 (init_client 4)" by code_simp
  have cur: "current_idx ring_full = 0" by code_simp
  have old: "pose_matrix ring_full ! 0 = CxrMatrix34 (Vec4 1 0 0 1) (Vec4 0 1 0 0) (Vec4 0 0 1 0)"
    by code_simp
  have full: "ring_ok 4 (init_client 4) \<and> length [shift_x 1, shift_x 2, shift_x 3, shift_x 4] = nat 4
        \<and> ring_full = pushes 4 (init_client 4) [shift_x 1, shift_x 2, shift_x 3, shift_x 4]"
    using ok0 by (simp add: ring_full_def)
  note t = SetPoseMatrix_overwrites_oldest [OF ok, of mat4_numbered "init_client 4"
      "[shift_x 1, shift_x 2, shift_x 3, shift_x 4]"]
  from t full have "\<forall>i < 3. \<forall>j < 4. m (pose_matrix ring_full ! nat (current_idx ring_full)) i j
      = mat4_at ([shift_x 1, shift_x 2, shift_x 3, shift_x 4] ! 0) j i"
    by blast
  then have 1: "m (pose_matrix ring_full ! 0) 0 3 = mat4_at (shift_x 1) 3 0"
    by (simp add: cur)
  from t have "\<forall>i < 3. \<forall>j < 4.
      m (pose_matrix (SetPoseMatrix 4 ring_full mat4_numbered) ! nat (current_idx ring_full)) i j
        = mat4_at mat4_numbered j i"
    by blast
  then have "m (pose_matrix (SetPoseMatrix 4 ring_full mat4_numbered) ! 0) 1 2
      = mat4_at mat4_numbered 2 1"
    by (simp add: cur)
  then have 2: "m (pose_matrix (SetPoseMatrix 4 ring_full mat4_numbered) ! 0) 1 2 = 10"
    by (simp add: mat4_numbered_def)
  from t have "pose_matrix (SetPoseMatrix 4 ring_full mat4_numbered) ! nat (current_idx ring_full)
       = to_matrix34 mat4_numbered"
    by blast
  then have 3: "pose_matrix (SetPoseMatrix 4 ring_full mat4_numbered) ! 0
       = CxrMatrix34 (Vec4 1 5 9 13) (Vec4 2 6 10 14) (Vec4 3 7 11 15)"
    by (simp add: cur to_matrix34_def mat4_numbered_def)
  from t have 4: "current_idx (SetPoseMatrix 4 ring_full mat4_numbered) = (current_idx ring_full + 1) mod 4"
    by blast
  show ?thesis using ok cur old 1 2 3 4 by simp
qed

subsection \<open>C4: the pose that the tracking callback reads\<close>

text \<open>
  C4. After at least one push into a ring in order, \<open>GetTrackingState\<close> reads the slot
  \<open>(current_idx - 1) mod kQueueLen\<close> and hands to \<open>cxrMatrixToVecQuat\<close> exactly the pose
  stored by the last push.
\<close>

theorem GetTrackingState_latest:
  assumes "ring_ok K c" and "ps \<noteq> []"
  shows "latest_idx K (pushes K c ps) = (current_idx (pushes K c ps) - 1) mod K
       \<and> position_rotation (GetTrackingState cxrMatrixToVecQuat K (pushes K c ps))
           = cxrMatrixToVecQuat (to_matrix34 (last ps))"
proof -
  obtain qs p where ps: "ps = qs @ [p]" using assms(2) by (metis rev_exhaust)
  let ?c = "pushes K c qs"
  have ok: "ring_ok K ?c" using assms(1) by (rule ring_ok_pushes)
  then have K: "0 \<le> current_idx ?c" "current_idx ?c < K" by (simp_all add: ring_ok_def)
  have l: "latest_idx K (SetPoseMatrix K ?c p) = current_idx ?c"
    using ok by (rule latest_idx_SetPoseMatrix)
  have "(current_idx (SetPoseMatrix K ?c p) - 1) mod K = current_idx ?c"
    using K by (simp add: current_idx_SetPoseMatrix [OF ok] mod_back)
  moreover have "pose_matrix (SetPoseMatrix K ?c p) ! nat (current_idx ?c) = to_matrix34 p"
    using ok by (rule SetPoseMatrix_slot)
  ultimately show ?thesis
    by (simp add: ps pushes_snoc l GetTrackingState_def)
qed

theorem GetTrackingState_latest_witness:
  "ring_ok 4 (init_client 4) \<and> five_poses \<noteq> []
   \<and> latest_idx 4 (pushes 4 (init_client 4) five_poses) = 0
   \<and> position_rotation (GetTrackingState (\<lambda>M. (m M 0 3, m M 1 3, m M 2 3)) 4
        (pushes 4 (init_client 4) five_poses)) = (5, 0, 0)"
proof -
  have ok0: "ring_ok 4 (init_client 4)" by code_simp
  have ne: "five_poses \<noteq> []" by (simp add: five_poses_def)
  have cur: "current_idx (pushes 4 (init_client 4) five_poses) = 1" by code_simp
  have l: "to_matrix34 (last five_poses) = CxrMatrix34 (Vec4 1 0 0 5) (Vec4 0 1 0 0) (Vec4 0 0 1 0)"
    by (simp add: five_poses_def to_matrix34_def shift_x_def)
  from GetTrackingState_latest [OF ok0 ne, of "\<lambda>M. (m M 0 3, m M 1 3, m M 2 3)"]
  show ?thesis using ok0 ne by (simp add: cur l)
qed

subsection \<open>C5: no match\<close>

text \<open>
  C5. When no slot of the ring matches the pose of the latched frame, that is, every
  slot has a component that differs by \<open>0.0001\<close> or more, \<open>DetermineOffset\<close> returns
  \<open>0\<close>.
\<close>

theorem DetermineOffset_default_0:
  assumes "ring_ok K c"
    and "\<And>i. i < length (pose_matrix c) \<Longrightarrow>
           \<not> pose_match (pose_matrix c ! i) (poseMatrix (framesLatched c))"
  shows "DetermineOffset K c = 0"
  unfolding DetermineOffset_def
proof (rule DetermineOffset_from_none)
  fix d :: int assume d: "0 \<le> d" "d < K"
  have "nat (offset_idx K (current_idx c) d) < length (pose_matrix c)"
    using offset_idx_range [OF assms(1) d] assms(1) by (simp add: ring_ok_def)
  then show "\<not> match_at K c d"
    using assms(2) by (simp add: match_at_def slot_at_def)
qed

theorem DetermineOffset_default_0_witness:
  "ring_ok 4 ring_no_match
   \<and> \<not> pose_match (pose_matrix ring_no_match ! 0) (poseMatrix (framesLatched ring_no_match))
   \<and> \<not> pose_match (pose_matrix ring_no_match ! 1) (poseMatrix (framesLatched ring_no_match))
   \<and> \<not> pose_match (pose_matrix ring_no_match ! 2) (poseMatrix (framesLatched ring_no_match))
   \<and> \<not> pose_match (pose_matrix ring_no_match ! 3) (poseMatrix (framesLatched ring_no_match))
   \<and> DetermineOffset 4 ring_no_match = 0"
proof -
  have ok: "ring_ok 4 ring_no_match" by code_simp
  have nm: "\<forall>x \<in> set (pose_matrix ring_no_match).
         \<not> pose_match x (poseMatrix (framesLatched ring_no_match))" by code_simp
  have len: "length (pose_matrix ring_no_match) = 4" by code_simp
  have "DetermineOffset 4 ring_no_match = 0"
    using nm by (intro DetermineOffset_default_0 [OF ok]) simp
  then show ?thesis using ok nm len by simp
qed

subsection \<open>C7: what a push leaves alone\<close>

text \<open>
  C7. A push changes the slot at the write cursor and the cursor and nothing else: every
  other slot, the length of the array and every other member keep their values. The
  slot it wrote keeps the pose through the next \<open>kQueueLen - 1\<close> pushes, and push number
  \<open>kQueueLen\<close> after it writes that slot again.
\<close>

theorem SetPoseMatrix_frame:
  assumes "ring_ok K c"
  shows "(\<forall>i. int i \<noteq> current_idx c \<longrightarrow>
            pose_matrix (SetPoseMatrix K c p) ! i = pose_matrix c ! i)
       \<and> length (pose_matrix (SetPoseMatrix K c p)) = length (pose_matrix c)
       \<and> (SetPoseMatrix K c p) \<lparr> pose_matrix := pose_matrix c, current_idx := current_idx c \<rparr> = c
       \<and> (\<forall>qs. length qs < nat K \<longrightarrow>
            pose_matrix (pushes K (SetPoseMatrix K c p) qs) ! nat (current_idx c) = to_matrix34 p)
       \<and> (\<forall>qs. length qs = nat K \<longrightarrow>
            pose_matrix (pushes K (SetPoseMatrix K c p) qs) ! nat (current_idx c)
              = to_matrix34 (last qs))"
proof -
  have K: "0 < K" "0 \<le> current_idx c" "current_idx c < K" using assms by (simp_all add: ring_ok_def)
  have a: "\<forall>i. int i \<noteq> current_idx c \<longrightarrow>
            pose_matrix (SetPoseMatrix K c p) ! i = pose_matrix c ! i"
    using K by (auto simp: SetPoseMatrix_def)
  have b: "length (pose_matrix (SetPoseMatrix K c p)) = length (pose_matrix c)"
    by (simp add: SetPoseMatrix_def)
  have c: "(SetPoseMatrix K c p) \<lparr> pose_matrix := pose_matrix c, current_idx := current_idx c \<rparr> = c"
    by (simp add: SetPoseMatrix_def)
  have d: "pose_matrix (pushes K (SetPoseMatrix K c p) qs) ! nat (current_idx c) = to_matrix34 p"
    if "length qs < nat K" for qs
  proof -
    have "pose_matrix (pushes K c (p # qs)) ! nat ((current_idx c + int 0) mod K)
            = to_matrix34 ((p # qs) ! 0)"
      using assms that by (intro pushes_slot) auto
    then show ?thesis using K by simp
  qed
  have e: "pose_matrix (pushes K (SetPoseMatrix K c p) qs) ! nat (current_idx c)
              = to_matrix34 (last qs)"
    if "length qs = nat K" for qs
  proof -
    have ne: "qs \<noteq> []" using that K by auto
    have ok: "ring_ok K (SetPoseMatrix K c p)" using assms by (rule ring_ok_SetPoseMatrix)
    have "pose_matrix (pushes K (SetPoseMatrix K c p) qs)
            ! nat ((current_idx (SetPoseMatrix K c p) + int (length qs - 1)) mod K)
            = to_matrix34 (qs ! (length qs - 1))"
      using that ne K by (intro pushes_slot [OF ok]) auto
    moreover have "(current_idx (SetPoseMatrix K c p) + int (length qs - 1)) mod K = current_idx c"
    proof -
      have "int (length qs - 1) = K - 1" using that K by simp
      then have "(current_idx (SetPoseMatrix K c p) + int (length qs - 1)) mod K
                   = (current_idx c + (1 + (K - 1))) mod K"
        by (simp only: current_idx_SetPoseMatrix [OF assms] mod_step)
      then show ?thesis using K by simp
    qed
    ultimately show ?thesis using ne by (simp add: last_conv_nth)
  qed
  show ?thesis using a b c d e by blast
qed

theorem SetPoseMatrix_frame_witness:
  "ring_ok 4 ring_full
   \<and> pose_matrix (SetPoseMatrix 4 ring_full (shift_x 5)) ! 1 = pose_matrix ring_full ! 1
   \<and> pose_matrix (SetPoseMatrix 4 ring_full (shift_x 5)) ! 1 = to_matrix34 (shift_x 2)
   \<and> pose_matrix (pushes 4 (SetPoseMatrix 4 ring_full (shift_x 5)) [shift_x 6, shift_x 7, shift_x 8]) ! 0
       = to_matrix34 (shift_x 5)
   \<and> pose_matrix (pushes 4 (SetPoseMatrix 4 ring_full (shift_x 5)) [shift_x 6, shift_x 7, shift_x 8, shift_x 9]) ! 0
       = to_matrix34 (shift_x 9)"
proof -
  have ok: "ring_ok 4 ring_full" by code_simp
  have cur: "current_idx ring_full = 0" by code_simp
  have s1: "pose_matrix ring_full ! 1 = to_matrix34 (shift_x 2)" by code_simp
  note f = SetPoseMatrix_frame [OF ok, of "shift_x 5"]
  from f have a: "pose_matrix (SetPoseMatrix 4 ring_full (shift_x 5)) ! 1 = pose_matrix ring_full ! 1"
    using cur by (metis of_nat_1 zero_neq_one)
  from f have "length [shift_x 6, shift_x 7, shift_x 8] < nat 4 \<longrightarrow>
      pose_matrix (pushes 4 (SetPoseMatrix 4 ring_full (shift_x 5)) [shift_x 6, shift_x 7, shift_x 8])
        ! nat (current_idx ring_full) = to_matrix34 (shift_x 5)"
    by blast
  then have b: "pose_matrix (pushes 4 (SetPoseMatrix 4 ring_full (shift_x 5)) [shift_x 6, shift_x 7, shift_x 8]) ! 0
       = to_matrix34 (shift_x 5)"
    by (simp add: cur del: pushes.simps)
  from f have "length [shift_x 6, shift_x 7, shift_x 8, shift_x 9] = nat 4 \<longrightarrow>
      pose_matrix (pushes 4 (SetPoseMatrix 4 ring_full (shift_x 5)) [shift_x 6, shift_x 7, shift_x 8, shift_x 9])
        ! nat (current_idx ring_full) = to_matrix34 (last [shift_x 6, shift_x 7, shift_x 8, shift_x 9])"
    by blast
  then have c: "pose_matrix (pushes 4 (SetPoseMatrix 4 ring_full (shift_x 5)) [shift_x 6, shift_x 7, shift_x 8, shift_x 9]) ! 0
       = to_matrix34 (shift_x 9)"
    by (simp add: cur del: pushes.simps)
  show ?thesis using ok a b c s1 by simp
qed

subsection \<open>C2: the order of the scan\<close>

text \<open>
  C2, as stated, has the scan start at the newest sample, with \<open>0\<close> for the newest. In
  the ring of four slots after five pushes the latched pose is the newest sample and
  no other: a scan from the newest finds it at distance \<open>0\<close>, and \<open>DetermineOffset\<close>
  returns \<open>1\<close>.
\<close>

theorem DetermineOffset_newest_counterexample:
  "pose_match (pose_matrix ring_five_pushes ! nat (latest_idx 4 ring_five_pushes))
     (poseMatrix (framesLatched ring_five_pushes))
   \<and> findOffset_spec 4 ring_five_pushes = 0
   \<and> DetermineOffset 4 ring_five_pushes = 1"
  by code_simp

text \<open>
  C2, amended. \<open>DetermineOffset\<close> scans backwards from the slot at the write cursor:
  offset \<open>d\<close> is the slot \<open>(current_idx - d) mod kQueueLen\<close>, so \<open>0\<close> is the slot that
  the next push overwrites and \<open>1\<close> is the newest sample. It returns the first offset
  whose slot matches the latched pose: in none of the twelve components does the
  \<open>float\<close> difference reach \<open>0.0001f\<close> in absolute value.
\<close>

theorem DetermineOffset_first_from_cursor:
  assumes "ring_ok K c" and "0 \<le> d" and "d < K"
    and "\<forall>i < 3. \<forall>j < 4.
           \<not> fabsf (fsub (m (pose_matrix c ! nat ((current_idx c - d) mod K)) i j)
                          (m (poseMatrix (framesLatched c)) i j)) \<ge> f32_eps"
    and "\<And>e. 0 \<le> e \<Longrightarrow> e < d \<Longrightarrow>
           \<exists>i < 3. \<exists>j < 4.
             fabsf (fsub (m (pose_matrix c ! nat ((current_idx c - e) mod K)) i j)
                         (m (poseMatrix (framesLatched c)) i j)) \<ge> f32_eps"
  shows "DetermineOffset K c = d"
proof (rule DetermineOffset_least [OF assms(1-3)])
  show "pose_match (pose_matrix c ! nat ((current_idx c - d) mod K)) (poseMatrix (framesLatched c))"
    using assms(4) by (simp only: pose_match_components)
  show "\<not> pose_match (pose_matrix c ! nat ((current_idx c - e) mod K)) (poseMatrix (framesLatched c))"
    if "0 \<le> e" "e < d" for e
    using assms(5) [OF that] by (simp only: pose_match_components) blast
qed

text \<open>
  One push of the identity into the empty ring of four slots; the latched pose is off
  by the largest \<open>float\<close> below \<open>0.0001f\<close> in \<open>m[0][3]\<close>. The slot at the cursor (offset
  \<open>0\<close>, never written) differs in \<open>m[0][0]\<close>, the pushed sample (offset \<open>1\<close>) matches,
  and the result is \<open>1\<close>. With a pose that is off by exactly \<open>0.0001f\<close> the sample no
  longer matches and the result is \<open>0\<close>.
\<close>

theorem DetermineOffset_first_from_cursor_witness:
  "ring_ok 4 ring_below_eps
   \<and> current_idx ring_below_eps = 1
   \<and> m (pose_matrix ring_below_eps ! 0) 0 3 = 0
   \<and> m (poseMatrix (framesLatched ring_below_eps)) 0 3 = 13743894 / 2 ^ 37
   \<and> pose_match (pose_matrix ring_below_eps ! 0) (poseMatrix (framesLatched ring_below_eps))
   \<and> fabsf (fsub (m (pose_matrix ring_below_eps ! 1) 0 0)
                  (m (poseMatrix (framesLatched ring_below_eps)) 0 0)) \<ge> f32_eps
   \<and> DetermineOffset 4 ring_below_eps = 1
   \<and> DetermineOffset 4 ring_eps_target = 0"
proof -
  have ok: "ring_ok 4 ring_below_eps" by code_simp
  have cur: "current_idx ring_below_eps = 1" by code_simp
  have v: "m (pose_matrix ring_below_eps ! 0) 0 3 = 0"
    "m (poseMatrix (framesLatched ring_below_eps)) 0 3 = 13743894 / 2 ^ 37"
    by code_simp+
  have pm: "pose_match (pose_matrix ring_below_eps ! 0) (poseMatrix (framesLatched ring_below_eps))"
    by code_simp
  have "component_differs (m (pose_matrix ring_below_eps ! 1) 0 0)
                  (m (poseMatrix (framesLatched ring_below_eps)) 0 0)"
    by code_simp
  then have n: "fabsf (fsub (m (pose_matrix ring_below_eps ! 1) 0 0)
                  (m (poseMatrix (framesLatched ring_below_eps)) 0 0)) \<ge> f32_eps"
    by (simp only: component_differs_def)
  have eps: "DetermineOffset 4 ring_eps_target = 0" by code_simp
  have "DetermineOffset 4 ring_below_eps = 1"
  proof (rule DetermineOffset_first_from_cursor [OF ok])
    show "\<forall>i < 3. \<forall>j < 4.
           \<not> fabsf (fsub (m (pose_matrix ring_below_eps ! nat ((current_idx ring_below_eps - 1) mod 4)) i j)
                          (m (poseMatrix (framesLatched ring_below_eps)) i j)) \<ge> f32_eps"
      using pm by (simp only: pose_match_components cur) simp
    show "\<exists>i < 3. \<exists>j < 4.
             fabsf (fsub (m (pose_matrix ring_below_eps ! nat ((current_idx ring_below_eps - e) mod 4)) i j)
                         (m (poseMatrix (framesLatched ring_below_eps)) i j)) \<ge> f32_eps"
      if "0 \<le> e" "e < 1" for e
    proof -
      have "e = 0" using that by simp
      then have "nat ((current_idx ring_below_eps - e) mod 4) = 1" by (simp add: cur)
      then show ?thesis using n by (metis zero_less_numeral)
    qed
  qed simp_all
  then show ?thesis using ok cur v pm n eps by simp
qed

text \<open>
  A pose that is \<open>0.0001f\<close> away from the only pushed sample does not match it: the scan
  finds nothing and returns \<open>0\<close>.
\<close>

lemma DetermineOffset_eps_target:
  "\<not> pose_match (pose_matrix ring_eps_target ! 0) (poseMatrix (framesLatched ring_eps_target))
   \<and> DetermineOffset 4 ring_eps_target = 0"
  by code_simp

subsection \<open>C1: the offset of the sample written k pushes ago\<close>

text \<open>
  C1, as stated, gives \<open>k\<close> for the sample written \<open>k\<close> pushes ago. After one push into
  the empty ring of four slots, with the latched pose equal to that sample (\<open>k = 0\<close>)
  and matching no other slot, \<open>DetermineOffset\<close> does not return \<open>0\<close>.
\<close>

theorem DetermineOffset_one_push_counterexample:
  "length [shift_x 1] \<le> nat 4
   \<and> ring_one_push = with_target (pushes 4 (init_client 4) [shift_x 1]) (to_matrix34 ([shift_x 1] ! 0))
   \<and> pose_match (pose_matrix ring_one_push ! 0) (poseMatrix (framesLatched ring_one_push))
   \<and> \<not> pose_match (pose_matrix ring_one_push ! 1) (poseMatrix (framesLatched ring_one_push))
   \<and> \<not> pose_match (pose_matrix ring_one_push ! 2) (poseMatrix (framesLatched ring_one_push))
   \<and> \<not> pose_match (pose_matrix ring_one_push ! 3) (poseMatrix (framesLatched ring_one_push))
   \<and> DetermineOffset 4 ring_one_push \<noteq> 0"
  by code_simp

text \<open>
  C1, amended. After \<open>N \<le> kQueueLen\<close> pushes into a ring in order, if the latched pose
  is the sample written \<open>k\<close> pushes ago (\<open>k = 0\<close> the last push) and matches no other
  slot, \<open>DetermineOffset\<close> returns \<open>(k + 1) mod kQueueLen\<close>: the distance back from the
  write cursor, which is one more than the distance back from the newest sample.
\<close>

theorem DetermineOffset_after_pushes:
  assumes ok: "ring_ok K c0" and N: "length ps \<le> nat K" and k: "k < length ps"
    and c: "c = with_target (pushes K c0 ps) (to_matrix34 (ps ! (length ps - 1 - k)))"
    and others: "\<And>i. i < nat K \<Longrightarrow> int i \<noteq> (current_idx c0 + int (length ps - 1 - k)) mod K \<Longrightarrow>
           \<not> pose_match (pose_matrix c ! i) (poseMatrix (framesLatched c))"
  shows "DetermineOffset K c = (int k + 1) mod K"
proof (rule DetermineOffset_least)
  let ?j = "length ps - 1 - k"
  let ?d = "(int k + 1) mod K"
  have K: "0 < K" using ok by (simp add: ring_ok_def)
  show okc: "ring_ok K c" using ok by (simp add: c with_target_simps ring_ok_pushes)
  show d: "0 \<le> ?d" "?d < K" using K by simp_all
  have cur: "current_idx c = (current_idx c0 + int (length ps)) mod K"
    using ok by (simp add: c with_target_simps current_idx_pushes)
  have "int ?j = int (length ps) - (int k + 1)" using k by simp
  then have "(current_idx c0 + int (length ps) - (int k + 1)) mod K = (current_idx c0 + int ?j) mod K"
    by (simp add: algebra_simps)
  then have slot: "(current_idx c - ?d) mod K = (current_idx c0 + int ?j) mod K"
    by (simp add: cur mod_simps)
  have "pose_matrix (pushes K c0 ps) ! nat ((current_idx c0 + int ?j) mod K) = to_matrix34 (ps ! ?j)"
    using ok N k by (intro pushes_slot) auto
  then have "pose_matrix c ! nat ((current_idx c0 + int ?j) mod K) = to_matrix34 (ps ! ?j)"
    by (simp only: c with_target_simps)
  then show "pose_match (pose_matrix c ! nat ((current_idx c - ?d) mod K)) (poseMatrix (framesLatched c))"
    by (simp add: slot) (simp add: c with_target_simps pose_match_refl)
  show "\<not> pose_match (pose_matrix c ! nat ((current_idx c - e) mod K)) (poseMatrix (framesLatched c))"
    if e: "0 \<le> e" "e < ?d" for e
  proof (rule others)
    show "nat ((current_idx c - e) mod K) < nat K" using K by simp
    have "(current_idx c - ?d + (?d - e)) mod K \<noteq> (current_idx c - ?d) mod K"
      using e d by (intro mod_shift_neq) auto
    then have "(current_idx c - e) mod K \<noteq> (current_idx c0 + int ?j) mod K"
      by (simp add: slot)
    then show "int (nat ((current_idx c - e) mod K)) \<noteq> (current_idx c0 + int ?j) mod K"
      using K by simp
  qed
qed

theorem DetermineOffset_after_pushes_witness:
  "ring_ok 4 (init_client 4) \<and> length [shift_x 1] \<le> nat 4 \<and> (0::nat) < length [shift_x 1]
   \<and> \<not> pose_match (pose_matrix ring_one_push ! 1) (poseMatrix (framesLatched ring_one_push))
   \<and> \<not> pose_match (pose_matrix ring_one_push ! 2) (poseMatrix (framesLatched ring_one_push))
   \<and> \<not> pose_match (pose_matrix ring_one_push ! 3) (poseMatrix (framesLatched ring_one_push))
   \<and> DetermineOffset 4 ring_one_push = 1"
proof -
  have ok: "ring_ok 4 (init_client 4)" by code_simp
  have n: "\<not> pose_match (pose_matrix ring_one_push ! 1) (poseMatrix (framesLatched ring_one_push))"
     "\<not> pose_match (pose_matrix ring_one_push ! 2) (poseMatrix (framesLatched ring_one_push))"
     "\<not> pose_match (pose_matrix ring_one_push ! 3) (poseMatrix (framesLatched ring_one_push))"
    by code_simp+
  have cur0: "current_idx (init_client 4) = 0" by (simp add: init_client_def)
  have "DetermineOffset 4 ring_one_push = (int 0 + 1) mod 4"
  proof (rule DetermineOffset_after_pushes [OF ok, of "[shift_x 1]"])
    show "ring_one_push = with_target (pushes 4 (init_client 4) [shift_x 1])
        (to_matrix34 ([shift_x 1] ! (length [shift_x 1] - 1 - 0)))"
      by (simp add: ring_one_push_def)
    show "\<not> pose_match (pose_matrix ring_one_push ! i) (poseMatrix (framesLatched ring_one_push))"
      if "i < nat 4" "int i \<noteq> (current_idx (init_client 4) + int (length [shift_x 1] - 1 - 0)) mod 4" for i
    proof -
      have "i = 1 \<or> i = 2 \<or> i = 3" using that by (auto simp: cur0)
      then show ?thesis using n by auto
    qed
  qed simp_all
  then show ?thesis using ok n by simp
qed

subsection \<open>C6: one push more than the ring holds\<close>

text \<open>
  C6. After \<open>kQueueLen + 1\<close> pushes into a ring in order the first pose is gone. Read
  from the slot after the one the first push wrote, the ring holds the last \<open>kQueueLen\<close>
  pushed poses in their order, and nothing else. If none of them matches the first
  pose, no slot matches it, and \<open>DetermineOffset\<close> for a frame rendered for the first
  pose falls back to \<open>0\<close>.
\<close>

theorem pushes_capacity_plus_one:
  assumes ok: "ring_ok K c0" and len: "length ps = nat K + 1"
  shows "map (\<lambda>j. pose_matrix (pushes K c0 ps) ! nat ((current_idx c0 + 1 + int j) mod K))
             [0 ..< nat K]
           = map to_matrix34 (tl ps)
       \<and> set (pose_matrix (pushes K c0 ps)) = to_matrix34 ` set (tl ps)
       \<and> ((\<forall>q \<in> set (tl ps). \<not> pose_match (to_matrix34 q) (to_matrix34 (hd ps))) \<longrightarrow>
            (\<forall>i < nat K. \<not> pose_match (pose_matrix (pushes K c0 ps) ! i) (to_matrix34 (hd ps)))
            \<and> DetermineOffset K (with_target (pushes K c0 ps) (to_matrix34 (hd ps))) = 0)"
proof -
  obtain p qs where ps: "ps = p # qs" using len by (cases ps) auto
  have lq: "length qs = nat K" using len ps by simp
  let ?c1 = "SetPoseMatrix K c0 p"
  let ?c = "pushes K c0 ps"
  have K: "0 < K" "0 \<le> current_idx c0" "current_idx c0 < K" using ok by (simp_all add: ring_ok_def)
  have ok1: "ring_ok K ?c1" using ok by (rule ring_ok_SetPoseMatrix)
  have okc: "ring_ok K ?c" using ok by (rule ring_ok_pushes)
  have lenc: "length (pose_matrix ?c) = nat K" using okc by (simp add: ring_ok_def)
  have cur1: "current_idx ?c1 = (current_idx c0 + 1) mod K"
    using ok by (rule current_idx_SetPoseMatrix)
  have c1: "0 \<le> current_idx ?c1" "current_idx ?c1 < K" using ok1 by (simp_all add: ring_ok_def)
  have slot: "pose_matrix ?c ! nat ((current_idx ?c1 + int j) mod K) = to_matrix34 (qs ! j)"
    if "j < nat K" for j
    using that lq by (simp only: ps pushes.simps) (intro pushes_slot [OF ok1], simp_all)
  have idx: "(current_idx c0 + 1 + int j) mod K = (current_idx ?c1 + int j) mod K" for j
    by (simp add: cur1 mod_simps)
  have a: "map (\<lambda>j. pose_matrix ?c ! nat ((current_idx c0 + 1 + int j) mod K)) [0 ..< nat K]
           = map to_matrix34 (tl ps)"
  proof (rule nth_equalityI)
    show "length (map (\<lambda>j. pose_matrix ?c ! nat ((current_idx c0 + 1 + int j) mod K)) [0 ..< nat K])
            = length (map to_matrix34 (tl ps))"
      by (simp add: ps lq)
    fix i assume "i < length (map (\<lambda>j. pose_matrix ?c ! nat ((current_idx c0 + 1 + int j) mod K))
                        [0 ..< nat K])"
    then have i: "i < nat K" by simp
    have "pose_matrix ?c ! nat ((current_idx c0 + 1 + int i) mod K) = to_matrix34 (qs ! i)"
      unfolding idx using i by (rule slot)
    then show "map (\<lambda>j. pose_matrix ?c ! nat ((current_idx c0 + 1 + int j) mod K)) [0 ..< nat K] ! i
            = map to_matrix34 (tl ps) ! i"
      using i lq by (simp add: ps del: pushes.simps)
  qed
  have every: "\<exists>j < nat K. pose_matrix ?c ! i = to_matrix34 (qs ! j)" if i: "i < nat K" for i
  proof -
    obtain j where j: "j < nat K" "int i = (current_idx ?c1 + int j) mod K"
      using ring_index_onto [OF K(1) c1 i] by blast
    have "pose_matrix ?c ! nat (int i) = to_matrix34 (qs ! j)"
      unfolding j(2) using j(1) by (rule slot)
    then show ?thesis using j(1) by auto
  qed
  have b: "set (pose_matrix ?c) = to_matrix34 ` set (tl ps)"
  proof (intro set_eqI iffI)
    fix x assume "x \<in> set (pose_matrix ?c)"
    then obtain i where "i < nat K" "x = pose_matrix ?c ! i"
      using lenc by (metis in_set_conv_nth)
    then show "x \<in> to_matrix34 ` set (tl ps)"
      using every [of i] lq by (auto simp: ps)
  next
    fix x assume "x \<in> to_matrix34 ` set (tl ps)"
    then obtain j where j: "j < nat K" "x = to_matrix34 (qs ! j)"
      using lq by (auto simp: ps in_set_conv_nth)
    have "nat ((current_idx ?c1 + int j) mod K) < length (pose_matrix ?c)"
      using K lenc by simp
    then show "x \<in> set (pose_matrix ?c)"
      using slot [OF j(1)] j(2) by (metis nth_mem)
  qed
  have c: "(\<forall>i < nat K. \<not> pose_match (pose_matrix ?c ! i) (to_matrix34 (hd ps)))
            \<and> DetermineOffset K (with_target ?c (to_matrix34 (hd ps))) = 0"
    if nm: "\<forall>q \<in> set (tl ps). \<not> pose_match (to_matrix34 q) (to_matrix34 (hd ps))"
  proof -
    have no: "\<not> pose_match (pose_matrix ?c ! i) (to_matrix34 (hd ps))" if "i < nat K" for i
    proof -
      have "pose_matrix ?c ! i \<in> set (pose_matrix ?c)" using that lenc by simp
      then show ?thesis using nm b by auto
    qed
    have "DetermineOffset_from K (with_target ?c (to_matrix34 (hd ps))) 0 = 0"
    proof (rule DetermineOffset_from_none)
      fix d :: int assume d: "0 \<le> d" "d < K"
      have "nat (offset_idx K (current_idx ?c) d) < nat K"
        using offset_idx_range [OF okc d] by simp
      then show "\<not> match_at K (with_target ?c (to_matrix34 (hd ps))) d"
        using no by (simp add: match_at_def slot_at_def with_target_simps)
    qed
    then show ?thesis using no by (simp add: DetermineOffset_def)
  qed
  show ?thesis using a b c by blast
qed

theorem pushes_capacity_plus_one_witness:
  "ring_ok 4 (init_client 4) \<and> length five_poses = nat 4 + 1
   \<and> set (pose_matrix (pushes 4 (init_client 4) five_poses))
       = {to_matrix34 (shift_x 2), to_matrix34 (shift_x 3), to_matrix34 (shift_x 4),
          to_matrix34 (shift_x 5)}
   \<and> \<not> pose_match (pose_matrix (pushes 4 (init_client 4) five_poses) ! 0) (to_matrix34 (shift_x 1))
   \<and> \<not> pose_match (pose_matrix (pushes 4 (init_client 4) five_poses) ! 1) (to_matrix34 (shift_x 1))
   \<and> \<not> pose_match (pose_matrix (pushes 4 (init_client 4) five_poses) ! 2) (to_matrix34 (shift_x 1))
   \<and> \<not> pose_match (pose_matrix (pushes 4 (init_client 4) five_poses) ! 3) (to_matrix34 (shift_x 1))
   \<and> DetermineOffset 4 (with_target (pushes 4 (init_client 4) five_poses) (to_matrix34 (shift_x 1))) = 0"
proof -
  have ok: "ring_ok 4 (init_client 4)" by code_simp
  have len: "length five_poses = nat 4 + 1" by (simp add: five_poses_def)
  have hd: "hd five_poses = shift_x 1" by (simp add: five_poses_def)
  have tl: "tl five_poses = [shift_x 2, shift_x 3, shift_x 4, shift_x 5]"
    by (simp add: five_poses_def)
  have nm: "\<forall>q \<in> set (tl five_poses). \<not> pose_match (to_matrix34 q) (to_matrix34 (hd five_poses))"
    by code_simp
  note t = pushes_capacity_plus_one [OF ok len]
  from t have s: "set (pose_matrix (pushes 4 (init_client 4) five_poses))
       = to_matrix34 ` set (tl five_poses)"
    by blast
  from t nm have n: "\<forall>i < nat 4.
      \<not> pose_match (pose_matrix (pushes 4 (init_client 4) five_poses) ! i) (to_matrix34 (hd five_poses))"
    by blast
  from t nm have d: "DetermineOffset 4
      (with_target (pushes 4 (init_client 4) five_poses) (to_matrix34 (hd five_poses))) = 0"
    by blast
  have n0: "\<not> pose_match (pose_matrix (pushes 4 (init_client 4) five_poses) ! 0) (to_matrix34 (shift_x 1))"
    and n1: "\<not> pose_match (pose_matrix (pushes 4 (init_client 4) five_poses) ! 1) (to_matrix34 (shift_x 1))"
    and n2: "\<not> pose_match (pose_matrix (pushes 4 (init_client 4) five_poses) ! 2) (to_matrix34 (shift_x 1))"
    and n3: "\<not> pose_match (pose_matrix (pushes 4 (init_client 4) five_poses) ! 3) (to_matrix34 (shift_x 1))"
    using n by (simp_all add: hd del: pushes.simps)
  have s': "set (pose_matrix (pushes 4 (init_client 4) five_poses))
       = {to_matrix34 (shift_x 2), to_matrix34 (shift_x 3), to_matrix34 (shift_x 4),
          to_matrix34 (shift_x 5)}"
    unfolding s tl by simp
  show ?thesis using ok len s' n0 n1 n2 n3 d [unfolded hd] by blast
qed

section \<open>Claims about the latched frame\<close>

text \<open>
  C9. \<open>latched\<close> is a two-state flag. \<open>Latch\<close> on a latched client returns
  \<open>cxrError_Success\<close> and calls nothing: client and SDK state are unchanged. On a
  client that is not latched and has no receiver it returns
  \<open>cxrError_Receiver_Not_Running\<close>, again with everything unchanged. Otherwise it
  returns the status of \<open>cxrLatchFrame\<close>, and the flag is set exactly when that status
  is \<open>cxrError_Success\<close>; a set flag after \<open>Latch\<close> always comes with the result
  \<open>cxrError_Success\<close>. \<open>Release\<close> on a latched client calls \<open>cxrReleaseFrame\<close> and
  clears the flag; on a client that is not latched it changes nothing and calls nothing.
\<close>

theorem Latch_Release_flag:
  "(latched c \<longrightarrow> Latch cxrLatchFrame c w = (cxrError_Success, c, w))
   \<and> (\<not> latched c \<and> cloudxr_receiver c = None \<longrightarrow>
        Latch cxrLatchFrame c w = (cxrError_Receiver_Not_Running, c, w))
   \<and> (\<not> latched c \<longrightarrow>
        (latched (fst (snd (Latch cxrLatchFrame c w))) \<longleftrightarrow>
           cloudxr_receiver c \<noteq> None
           \<and> fst (cxrLatchFrame w (cloudxr_receiver c) (framesLatched c)) = cxrError_Success))
   \<and> (\<not> latched c \<and> cloudxr_receiver c \<noteq> None \<longrightarrow>
        fst (Latch cxrLatchFrame c w) = fst (cxrLatchFrame w (cloudxr_receiver c) (framesLatched c)))
   \<and> (latched (fst (snd (Latch cxrLatchFrame c w))) \<longrightarrow>
        fst (Latch cxrLatchFrame c w) = cxrError_Success)
   \<and> (latched c \<longrightarrow>
        Release cxrReleaseFrame c w =
          (c \<lparr> framesLatched := fst (cxrReleaseFrame w (cloudxr_receiver c) (framesLatched c)),
               latched := False \<rparr>,
           snd (cxrReleaseFrame w (cloudxr_receiver c) (framesLatched c)))
        \<and> \<not> latched (fst (Release cxrReleaseFrame c w)))
   \<and> (\<not> latched c \<longrightarrow> Release cxrReleaseFrame c w = (c, w))"
  by (auto simp: Latch_def Release_def IsRunning_def split: prod.splits)

theorem Latch_Release_flag_witness:
  "Latch sdk_latch_frame latched_client 0 = (cxrError_Success, latched_client, 0)
   \<and> Latch sdk_latch_frame (init_client 4) 0 = (cxrError_Receiver_Not_Running, init_client 4, 0)
   \<and> latched (fst (snd (Latch sdk_latch_frame connected_client 0)))
   \<and> fst (Latch sdk_latch_frame connected_client 0) = cxrError_Success
   \<and> \<not> latched (fst (snd (Latch sdk_latch_not_ready connected_client 0)))
   \<and> fst (Latch sdk_latch_not_ready connected_client 0) = cxrError_Frame_Not_Ready
   \<and> Release sdk_release_frame latched_client 0 = (connected_client, 1)
   \<and> Release sdk_release_frame connected_client 0 = (connected_client, 0)"
proof -
  have l: "latched latched_client" "\<not> latched connected_client" "\<not> latched (init_client 4)"
    by (simp_all add: latched_client_def connected_client_def init_client_def)
  have r: "cloudxr_receiver connected_client \<noteq> None" "cloudxr_receiver (init_client 4) = None"
    by (simp_all add: connected_client_def init_client_def)
  have s: "fst (sdk_latch_frame 0 (cloudxr_receiver connected_client) (framesLatched connected_client))
             = cxrError_Success"
          "fst (sdk_latch_not_ready 0 (cloudxr_receiver connected_client) (framesLatched connected_client))
             = cxrError_Frame_Not_Ready"
    by (simp_all add: sdk_latch_frame_def sdk_latch_not_ready_def)
  have rel: "latched_client \<lparr> framesLatched :=
        fst (sdk_release_frame 0 (cloudxr_receiver latched_client) (framesLatched latched_client)),
        latched := False \<rparr> = connected_client"
      "snd (sdk_release_frame 0 (cloudxr_receiver latched_client) (framesLatched latched_client)) = 1"
    by (simp_all add: sdk_release_frame_def latched_client_def connected_client_def init_client_def)
  note a = Latch_Release_flag [of latched_client sdk_latch_frame 0 sdk_release_frame]
  note b = Latch_Release_flag [of "init_client 4" sdk_latch_frame 0 sdk_release_frame]
  note c = Latch_Release_flag [of connected_client sdk_latch_frame 0 sdk_release_frame]
  note d = Latch_Release_flag [of connected_client sdk_latch_not_ready 0 sdk_release_frame]
  have 1: "Latch sdk_latch_frame latched_client 0 = (cxrError_Success, latched_client, 0)"
    using a l by blast
  have 2: "Latch sdk_latch_frame (init_client 4) 0 = (cxrError_Receiver_Not_Running, init_client 4, 0)"
    using b l r by blast
  have 3: "latched (fst (snd (Latch sdk_latch_frame connected_client 0)))"
    using c l r s by blast
  have 4: "fst (Latch sdk_latch_frame connected_client 0) = cxrError_Success"
    using c 3 by blast
  have 5: "\<not> latched (fst (snd (Latch sdk_latch_not_ready connected_client 0)))"
    using d l r s by auto
  have 6: "fst (Latch sdk_latch_not_ready connected_client 0) = cxrError_Frame_Not_Ready"
    using d l r s by auto
  have 7: "Release sdk_release_frame latched_client 0 = (connected_client, 1)"
    using a l rel by auto
  have 8: "Release sdk_release_frame connected_client 0 = (connected_client, 0)"
    using c l by blast
  show ?thesis using 1 2 3 4 5 6 7 8 by blast
qed

section \<open>Claims about the stream resolution\<close>

text \<open>
  C10. Whenever \<open>SetStreamRes\<close> returns (its conversion to \<open>uint32_t\<close> is defined), the
  stored width and height are even: each is \<open>round\<close> of the \<open>float\<close> product of the
  dimension (after the swap for portrait) and the resolution factor, with the low bit
  cleared. For a factor in \<open>[0.5, 1.0]\<close>, which is what the constructor and the option
  handler leave in \<open>res_factor\<close>, the width is at most the height for orientation \<open>0\<close>
  or \<open>2\<close>, and the call returns for all dimensions below \<open>2^31\<close>, the non-negative
  \<open>int\<close> values that \<open>OnDisplayGeometryChanged\<close> passes. The initial \<open>720 x 1440\<close> is
  even and ordered the same way.
\<close>

theorem SetStreamRes_even:
  "(SetStreamRes c w h orientation = Some c' \<longrightarrow>
      even (unat (stream_width c')) \<and> even (unat (stream_height c'))
      \<and> unat (stream_width c')
          = 2 * (nat (c_round (fmul (f32_of_u32
               (if w > h \<and> (orientation = 0 \<or> orientation = 2) then h else w))
               (res_factor c))) div 2)
      \<and> unat (stream_height c')
          = 2 * (nat (c_round (fmul (f32_of_u32
               (if w > h \<and> (orientation = 0 \<or> orientation = 2) then w else h))
               (res_factor c))) div 2)
      \<and> (res_factor_ok c \<and> (orientation = 0 \<or> orientation = 2) \<longrightarrow>
            stream_width c' \<le> stream_height c')
      \<and> (res_factor_ok c \<longrightarrow> res_factor_ok c'))
   \<and> (res_factor_ok c \<and> unat w < 2 ^ 31 \<and> unat h < 2 ^ 31 \<longrightarrow>
        SetStreamRes c w h orientation \<noteq> None)
   \<and> (res_factor_ok c \<longrightarrow> res_factor_ok (res_factor_handler c factor))
   \<and> res_factor_ok (init_client K)
   \<and> stream_width (init_client K) = 720 \<and> stream_height (init_client K) = 1440
   \<and> even (unat (stream_width (init_client K))) \<and> even (unat (stream_height (init_client K)))
   \<and> stream_width (init_client K) \<le> stream_height (init_client K)"
proof -
  let ?w = "if w > h \<and> (orientation = 0 \<or> orientation = 2) then h else w"
  let ?h = "if w > h \<and> (orientation = 0 \<or> orientation = 2) then w else h"
  have some: "even (unat (stream_width c')) \<and> even (unat (stream_height c'))
      \<and> unat (stream_width c') = 2 * (nat (c_round (fmul (f32_of_u32 ?w) (res_factor c))) div 2)
      \<and> unat (stream_height c') = 2 * (nat (c_round (fmul (f32_of_u32 ?h) (res_factor c))) div 2)
      \<and> (res_factor_ok c \<and> (orientation = 0 \<or> orientation = 2) \<longrightarrow>
            stream_width c' \<le> stream_height c')
      \<and> (res_factor_ok c \<longrightarrow> res_factor_ok c')"
    if s: "SetStreamRes c w h orientation = Some c'"
  proof -
    note f = SetStreamRes_Some [OF s]
    have sw: "scaled_even (res_factor c) ?w = Some (stream_width c')"
      and sh: "scaled_even (res_factor c) ?h = Some (stream_height c')"
      and rf: "res_factor c' = res_factor c"
      using f by blast+
    have ev: "even (unat (stream_width c'))" "even (unat (stream_height c'))"
      by (rule even_scaled_even [OF sw], rule even_scaled_even [OF sh])
    have val: "unat (stream_width c') = 2 * (nat (c_round (fmul (f32_of_u32 ?w) (res_factor c))) div 2)"
      "unat (stream_height c') = 2 * (nat (c_round (fmul (f32_of_u32 ?h) (res_factor c))) div 2)"
      by (rule unat_scaled_even [OF sw], rule unat_scaled_even [OF sh])
    have le: "stream_width c' \<le> stream_height c'"
      if "res_factor_ok c" "orientation = 0 \<or> orientation = 2"
    proof -
      have "0 \<le> res_factor c" using that(1) by (simp add: res_factor_ok_def)
      moreover have "?w \<le> ?h" using that(2) by auto
      ultimately show ?thesis using sw sh by (rule scaled_even_mono)
    qed
    have inv: "res_factor_ok c'" if "res_factor_ok c"
      using that by (simp add: res_factor_ok_def rf)
    show ?thesis using ev val le inv by blast
  qed
  have defined: "SetStreamRes c w h orientation \<noteq> None"
    if ok: "res_factor_ok c" and w: "unat w < 2 ^ 31" and h: "unat h < 2 ^ 31"
  proof -
    have f: "0 \<le> res_factor c" "res_factor c \<le> 1" using ok by (simp_all add: res_factor_ok_def)
    have "scaled_even (res_factor c) w \<noteq> None" "scaled_even (res_factor c) h \<noteq> None"
      by (rule scaled_even_defined [OF f w], rule scaled_even_defined [OF f h])
    then show ?thesis
      by (auto simp: SetStreamRes_def split: option.splits)
  qed
  have handler: "res_factor_ok (res_factor_handler c factor)" if "res_factor_ok c"
    using that by (simp add: res_factor_ok_def res_factor_handler_def)
  have init: "stream_width (init_client K) = 720" "stream_height (init_client K) = 1440"
    by (simp_all add: init_client_def)
  have init_ok: "res_factor_ok (init_client K)"
    by (simp add: res_factor_ok_def init_client_def)
  have init_facts: "even (unat (stream_width (init_client K)))"
      "even (unat (stream_height (init_client K)))"
      "stream_width (init_client K) \<le> stream_height (init_client K)"
    by (simp_all add: init)
  show ?thesis using some defined handler init init_ok init_facts by blast
qed

text \<open>
  With the option \<open>-rf 0.7\<close> and a display of \<open>1085 x 1925\<close> in portrait, both \<open>float\<close>
  products round to a half, \<open>759.5\<close> and \<open>1347.5\<close>, and the stream is \<open>760 x 1348\<close>.
\<close>

theorem SetStreamRes_even_witness:
  "res_factor_ok client_rf_07
   \<and> unat (1085 :: 32 word) < 2 ^ 31 \<and> unat (1925 :: 32 word) < 2 ^ 31
   \<and> SetStreamRes client_rf_07 1085 1925 0
       = Some (client_rf_07 \<lparr> stream_width := 760, stream_height := 1348 \<rparr>)"
proof -
  have rf: "res_factor client_rf_07 = 11744051 / 2 ^ 24"
    by (simp add: client_rf_07_def res_factor_handler_def)
  have ok: "res_factor_ok client_rf_07"
    by (simp add: res_factor_ok_def rf)
  have b: "unat (1085 :: 32 word) < 2 ^ 31" "unat (1925 :: 32 word) < 2 ^ 31" by simp_all
  have f1: "f32_of_u32 1085 = 1085"
  proof -
    have "round_f32 1085
        = of_int (round_half_even (1085 / 2 powr of_int (10 - 23))) * 2 powr of_int (10 - 23)"
      by (rule round_f32_binade) simp_all
    moreover have "(1085 :: real) / 2 powr of_int (10 - 23) = of_int 8888320"
      by (simp add: powr_neg_numeral)
    ultimately have "round_f32 1085 = 8888320 * 2 powr of_int (10 - 23)"
      by (simp only: rhe_of_int)
    then show ?thesis by (simp add: f32_of_u32_def powr_neg_numeral)
  qed
  have f2: "f32_of_u32 1925 = 1925"
  proof -
    have "round_f32 1925
        = of_int (round_half_even (1925 / 2 powr of_int (10 - 23))) * 2 powr of_int (10 - 23)"
      by (rule round_f32_binade) simp_all
    moreover have "(1925 :: real) / 2 powr of_int (10 - 23) = of_int 15769600"
      by (simp add: powr_neg_numeral)
    ultimately have "round_f32 1925 = 15769600 * 2 powr of_int (10 - 23)"
      by (simp only: rhe_of_int)
    then show ?thesis by (simp add: f32_of_u32_def powr_neg_numeral)
  qed
  have p1: "fmul 1085 (11744051 / 2 ^ 24) = 1519 / 2"
  proof -
    have "round_f32 (1085 * (11744051 / 2 ^ 24))
        = of_int (round_half_even (1085 * (11744051 / 2 ^ 24) / 2 powr of_int (9 - 23)))
            * 2 powr of_int (9 - 23)"
      by (rule round_f32_binade) simp_all
    moreover have "round_half_even (1085 * (11744051 / 2 ^ 24) / 2 powr of_int (9 - 23)) = 12443648"
      by (simp add: powr_neg_numeral round_half_even_def Let_def)
    ultimately show ?thesis by (simp add: fmul_def powr_neg_numeral)
  qed
  have p2: "fmul 1925 (11744051 / 2 ^ 24) = 2695 / 2"
  proof -
    have "round_f32 (1925 * (11744051 / 2 ^ 24))
        = of_int (round_half_even (1925 * (11744051 / 2 ^ 24) / 2 powr of_int (10 - 23)))
            * 2 powr of_int (10 - 23)"
      by (rule round_f32_binade) simp_all
    moreover have "round_half_even (1925 * (11744051 / 2 ^ 24) / 2 powr of_int (10 - 23)) = 11038720"
      by (simp add: powr_neg_numeral round_half_even_def Let_def)
    ultimately show ?thesis by (simp add: fmul_def powr_neg_numeral)
  qed
  have r1: "c_round (fmul (f32_of_u32 1085) (res_factor client_rf_07)) = 760"
    by (simp only: f1 rf p1) (simp add: c_round_def)
  have r2: "c_round (fmul (f32_of_u32 1925) (res_factor client_rf_07)) = 1348"
    by (simp only: f2 rf p2) (simp add: c_round_def)
  note t = SetStreamRes_even [of client_rf_07 1085 1925 0 _ 1 4]
  from t ok b have "SetStreamRes client_rf_07 1085 1925 0 \<noteq> None" by blast
  then obtain c' where c': "SetStreamRes client_rf_07 1085 1925 0 = Some c'" by blast
  from SetStreamRes_even [of client_rf_07 1085 1925 0 c' 1 4] c'
  have "unat (stream_width c')
          = 2 * (nat (c_round (fmul (f32_of_u32
               (if (1085 :: 32 word) > 1925 \<and> ((0 :: 32 word) = 0 \<or> (0 :: 32 word) = 2)
                then 1925 else 1085))
               (res_factor client_rf_07))) div 2)
      \<and> unat (stream_height c')
          = 2 * (nat (c_round (fmul (f32_of_u32
               (if (1085 :: 32 word) > 1925 \<and> ((0 :: 32 word) = 0 \<or> (0 :: 32 word) = 2)
                then 1085 else 1925))
               (res_factor client_rf_07))) div 2)"
    by blast
  then have v: "unat (stream_width c') = 760" "unat (stream_height c') = 1348"
    by (simp_all add: r1 r2)
  then have "stream_width c' = 760" "stream_height c' = 1348"
    by (simp_all add: word_unat_eq_iff)
  moreover have "c' = client_rf_07 \<lparr> stream_width := stream_width c', stream_height := stream_height c' \<rparr>"
    using c' by (auto simp: SetStreamRes_def split: option.splits if_splits)
  ultimately show ?thesis using ok b c' by simp
qed

end
